theory Spec2Isabelle
  imports Main "HOL-Library.AList"
begin

section \<open>Values, objects and effects\<close>

type_synonym key = string

text \<open>
  The embedding follows \<^verbatim>\<open>src/ignore.ts\<close>: the registry \<^verbatim>\<open>depsMap\<close>, the variable
  \<^verbatim>\<open>currentEffect\<close> and the stack \<^verbatim>\<open>effectsStack\<close> are the fields of a state that every
  function takes and returns, and \<^verbatim>\<open>createEffect\<close>, the wrapper \<^verbatim>\<open>effect\<close>, \<^verbatim>\<open>reactive\<close> with
  its two accessors, \<^verbatim>\<open>track\<close> and \<^verbatim>\<open>trigger\<close> are functions on it. The function \<^verbatim>\<open>render\<close>
  writes to the document only and is left out, and so are the values that wrappers
  return, which \<^verbatim>\<open>createEffect\<close> and \<^verbatim>\<open>trigger\<close> discard.

  An object is identified by its address in the heap, a property key is a string (there
  are no symbol keys), and an object lists its own properties in the order in which
  they were created. Every object has the prototype \<^verbatim>\<open>Object.prototype\<close>, as an object
  literal and the \<^verbatim>\<open>{}\<close> of \<^verbatim>\<open>reactive\<close> have. JavaScript numbers are represented by the
  integers and a separate \<open>NaN\<close>, the one number that is not strictly equal to itself;
  \<open>Inherited k\<close> is the object that \<^verbatim>\<open>Object.prototype\<close> gives under the name \<open>k\<close>: a
  built-in function, and for \<^verbatim>\<open>__proto__\<close> the prototype itself.
\<close>

datatype val =
  Undefined | Null | Bool bool | Num int | NaN | Str string | Ref nat | Inherited key

text \<open>\<^verbatim>\<open>a === b\<close>; the source's \<^verbatim>\<open>newValue !== value\<close> is its negation.\<close>

fun strict_eq :: "val \<Rightarrow> val \<Rightarrow> bool" where
  "strict_eq NaN b = False"
| "strict_eq a NaN = False"
| "strict_eq a b = (a = b)"

text \<open>The truth value JavaScript gives a value in a condition.\<close>

fun truthy :: "val \<Rightarrow> bool" where
  "truthy Undefined = False"
| "truthy Null = False"
| "truthy (Bool b) = b"
| "truthy (Num n) = (n \<noteq> 0)"
| "truthy NaN = False"
| "truthy (Str s) = (s \<noteq> [])"
| "truthy (Ref r) = True"
| "truthy (Inherited k) = True"

text \<open>The names that every object inherits from \<^verbatim>\<open>Object.prototype\<close>.\<close>

definition proto_names :: "key list" where
  "proto_names =
     [''constructor'', ''hasOwnProperty'', ''isPrototypeOf'', ''propertyIsEnumerable'',
      ''toLocaleString'', ''toString'', ''valueOf'', ''__proto__'', ''__defineGetter__'',
      ''__defineSetter__'', ''__lookupGetter__'', ''__lookupSetter__'']"

text \<open>
  The setter that \<^verbatim>\<open>Object.prototype\<close> has for \<^verbatim>\<open>__proto__\<close> does nothing when it is given
  a value that is neither an object nor \<^verbatim>\<open>null\<close>, and it leaves the prototype as it is
  when it is given \<^verbatim>\<open>Object.prototype\<close>. Any other value replaces the prototype.
\<close>

fun keeps_prototype :: "val \<Rightarrow> bool" where
  "keeps_prototype Null = False"
| "keeps_prototype (Ref r) = False"
| "keeps_prototype (Inherited k) = (k = ''__proto__'')"
| "keeps_prototype v = True"

text \<open>
  The keys that are array indices, \<^verbatim>\<open>0\<close> to \<^verbatim>\<open>4294967294\<close> written without a leading
  zero, and their numbers: \<^verbatim>\<open>Object.keys\<close> lists them first, in ascending order.
\<close>

definition dec :: "key \<Rightarrow> nat" where
  "dec k = foldl (\<lambda>n c. 10 * n + (of_char c - 48)) 0 k"

definition is_index :: "key \<Rightarrow> bool" where
  "is_index k =
     (k \<noteq> [] \<and> list_all (\<lambda>c. c \<in> set ''0123456789'') k
      \<and> (length k = 1 \<or> hd k \<noteq> CHR ''0'') \<and> dec k < 4294967295)"

text \<open>
  An own property is a data property (its value and its enumerable attribute) or the
  accessor pair that \<^verbatim>\<open>reactive\<close> defines: the \<^verbatim>\<open>get\<close> and \<^verbatim>\<open>set\<close> closures share the
  variable \<^verbatim>\<open>value\<close>, which is the first field; the others are the enumerable and the
  configurable attribute.
\<close>

datatype property = Data val bool | Accessor val bool bool

type_synonym obj = "(key \<times> property) list"

fun enumerable :: "property \<Rightarrow> bool" where
  "enumerable (Data v en) = en"
| "enumerable (Accessor v en cf) = en"

text \<open>
  The computations handed to \<^verbatim>\<open>createEffect\<close> are user code. They are represented by
  a small statement language: reading a property, assigning to a property, throwing,
  and creating a further effect.
\<close>

datatype expr = Lit val | PropOf nat key

datatype cmd =
    CRead nat key
  | CWrite nat key expr
  | CThrowIf expr
  | CCreate "cmd list"

text \<open>
  The wrapper \<^verbatim>\<open>effect\<close> built by \<^verbatim>\<open>createEffect\<close> is a closure over \<^verbatim>\<open>fn\<close>. Each call of
  \<^verbatim>\<open>createEffect\<close> builds a new one, so a wrapper carries an identity besides its
  computation.
\<close>

datatype effect = Effect (ident: nat) (fn: "cmd list")

record state =
  depsMap :: "(nat \<times> (key \<times> effect list) list) list"
  currentEffect :: "effect option"
  effectsStack :: "effect list"
  heap :: "obj list"
  fresh :: nat

datatype outcome = Normal | Thrown

text \<open>
  What a call did, as a tree: a wrapper that ran its computation (with the arguments it
  passed on and what the computation did in turn), a wrapper that returned at its guard,
  and a call of a \<^verbatim>\<open>get\<close> accessor.
\<close>

datatype event =
    Ran effect "val list" "event list"
  | Skipped effect "val list"
  | Got nat key

type_synonym result = "state \<times> outcome \<times> event list"

section \<open>The subscription registry\<close>

definition subscribers :: "state \<Rightarrow> nat \<Rightarrow> key \<Rightarrow> effect list option" where
  "subscribers s target k =
     (case map_of (depsMap s) target of
        None \<Rightarrow> None
      | Some deps \<Rightarrow> map_of deps k)"

text \<open>
  \<^verbatim>\<open>track\<close>: nothing without a current effect; otherwise the map of the target and the
  set of the key are created when missing and the current effect is added to the set.
\<close>

definition track :: "nat \<Rightarrow> key \<Rightarrow> state \<Rightarrow> state" where
  "track target k s =
     (case currentEffect s of
        None \<Rightarrow> s
      | Some e \<Rightarrow>
          (let deps = (case map_of (depsMap s) target of None \<Rightarrow> [] | Some d \<Rightarrow> d);
               dep = (case map_of deps k of None \<Rightarrow> [] | Some d \<Rightarrow> d);
               dep' = (if e \<in> set dep then dep else dep @ [e])
           in s\<lparr>depsMap := AList.update target (AList.update k dep' deps) (depsMap s)\<rparr>))"

section \<open>Property access\<close>

definition lookup_obj :: "state \<Rightarrow> nat \<Rightarrow> obj option" where
  "lookup_obj s r = (if r < length (heap s) then Some (heap s ! r) else None)"

definition store :: "state \<Rightarrow> nat \<Rightarrow> key \<Rightarrow> property \<Rightarrow> state" where
  "store s r k p = s\<lparr>heap := (heap s)[r := AList.update k p (heap s ! r)]\<rparr>"

text \<open>
  Reading \<^verbatim>\<open>o.k\<close>. The \<^verbatim>\<open>get\<close> accessor calls \<^verbatim>\<open>track\<close> and returns \<^verbatim>\<open>value\<close>; a data
  property is returned as it is; a key that the object does not have is looked up in
  \<^verbatim>\<open>Object.prototype\<close> and is \<^verbatim>\<open>undefined\<close> when it is not there either. A reference that
  denotes no object gives \<open>None\<close> (a TypeError).
\<close>

definition prop_get :: "nat \<Rightarrow> key \<Rightarrow> state \<Rightarrow> (val \<times> state \<times> event list) option" where
  "prop_get r k s =
     (case lookup_obj s r of
        None \<Rightarrow> None
      | Some ob \<Rightarrow>
          (case map_of ob k of
             None \<Rightarrow> Some (if k \<in> set proto_names then Inherited k else Undefined, s, [])
           | Some (Data v en) \<Rightarrow> Some (v, s, [])
           | Some (Accessor v en cf) \<Rightarrow> Some (v, track r k s, [Got r k])))"

fun eval :: "expr \<Rightarrow> state \<Rightarrow> (val \<times> state \<times> event list) option" where
  "eval (Lit v) s = Some (v, s, [])"
| "eval (PropOf r k) s = prop_get r k s"

section \<open>Effects, assignment and notification\<close>

text \<open>The \<^verbatim>\<open>finally\<close> block of the wrapper.\<close>

definition unwind :: "state \<Rightarrow> state" where
  "unwind s =
     (let st = butlast (effectsStack s)
      in s\<lparr>effectsStack := st,
           currentEffect := (if st = [] then None else Some (last st))\<rparr>)"

text \<open>The state in which the wrapper calls \<^verbatim>\<open>fn\<close>.\<close>

definition enter :: "effect \<Rightarrow> state \<Rightarrow> state" where
  "enter e s = s\<lparr>currentEffect := Some e, effectsStack := effectsStack s @ [e]\<rparr>"

text \<open>
  The functions of the source call each other: a computation assigns, the \<^verbatim>\<open>set\<close>
  accessor calls \<^verbatim>\<open>trigger\<close>, \<^verbatim>\<open>trigger\<close> calls wrappers, a wrapper calls its computation.
  They are defined together as one function on the kind of call.
\<close>

datatype call =
    Exec "cmd list"
  | Stmt cmd
  | Setter nat key val
  | Trigger nat key
  | ForEach "effect list"
  | Invoke effect "val list"
  | Create "cmd list"

fun rank :: "call \<Rightarrow> nat" where
  "rank (Exec cs) = 5"
| "rank (Stmt c) = 4"
| "rank (Setter r k v) = 3"
| "rank (Trigger r k) = 2"
| "rank (ForEach es) = 1"
| "rank (Create f) = 1"
| "rank (Invoke e args) = 0"

fun extent :: "call \<Rightarrow> nat" where
  "extent (Exec cs) = length cs"
| "extent (ForEach es) = length es"
| "extent c = 0"

text \<open>
  The first argument bounds the depth of nested wrapper calls, as the size of the call
  stack does in an engine; \<open>None\<close> means that the bound was reached. A result is the
  state, whether the call returned or threw, and what it did. In a \<^verbatim>\<open>forEach\<close> and in a
  sequence of statements an exception ends the iteration: nothing in the source catches
  one.

  An assignment to a key that the object does not have creates an enumerable data
  property, the inherited properties being writable; the one inherited setter is that of
  \<^verbatim>\<open>__proto__\<close>, which creates no property. An assignment that replaces the prototype
  of an object leaves what is embedded here, and has no result either.
\<close>

function run :: "nat \<Rightarrow> call \<Rightarrow> state \<Rightarrow> result option" where
  "run n (Invoke e args) s =
     (if e \<in> set (effectsStack s) then Some (s, Normal, [Skipped e args])
      else if n = 0 then None
      else (case run (n - 1) (Exec (fn e)) (enter e s) of
              None \<Rightarrow> None
            | Some (s1, out, evs) \<Rightarrow> Some (unwind s1, out, [Ran e args evs])))"
| "run n (Create f) s =
     run n (Invoke (Effect (fresh s) f) []) (s\<lparr>fresh := Suc (fresh s)\<rparr>)"
| "run n (Trigger target k) s =
     (case map_of (depsMap s) target of
        None \<Rightarrow> Some (s, Normal, [])
      | Some deps \<Rightarrow>
          (case map_of deps k of
             None \<Rightarrow> Some (s, Normal, [])
           | Some dep \<Rightarrow> run n (ForEach dep) s))"
| "run n (ForEach []) s = Some (s, Normal, [])"
| "run n (ForEach (e # es)) s =
     (case run n (Invoke e []) s of
        None \<Rightarrow> None
      | Some (s1, Thrown, evs) \<Rightarrow> Some (s1, Thrown, evs)
      | Some (s1, Normal, evs) \<Rightarrow>
          (case run n (ForEach es) s1 of
             None \<Rightarrow> None
           | Some (s2, out, evs') \<Rightarrow> Some (s2, out, evs @ evs')))"
| "run n (Setter r k v) s =
     (case lookup_obj s r of
        None \<Rightarrow> Some (s, Thrown, [])
      | Some ob \<Rightarrow>
          (case map_of ob k of
             None \<Rightarrow>
               (if k = ''__proto__''
                then (if keeps_prototype v then Some (s, Normal, []) else None)
                else Some (store s r k (Data v True), Normal, []))
           | Some (Data old en) \<Rightarrow> Some (store s r k (Data v en), Normal, [])
           | Some (Accessor old en cf) \<Rightarrow>
               (if \<not> strict_eq v old
                then run n (Trigger r k) (store s r k (Accessor v en cf))
                else Some (s, Normal, []))))"
| "run n (Stmt (CRead r k)) s =
     (case prop_get r k s of
        None \<Rightarrow> Some (s, Thrown, [])
      | Some (v, s1, evs) \<Rightarrow> Some (s1, Normal, evs))"
| "run n (Stmt (CWrite r k e)) s =
     (case eval e s of
        None \<Rightarrow> Some (s, Thrown, [])
      | Some (v, s1, evs) \<Rightarrow>
          (case run n (Setter r k v) s1 of
             None \<Rightarrow> None
           | Some (s2, out, evs') \<Rightarrow> Some (s2, out, evs @ evs')))"
| "run n (Stmt (CThrowIf e)) s =
     (case eval e s of
        None \<Rightarrow> Some (s, Thrown, [])
      | Some (v, s1, evs) \<Rightarrow> Some (s1, if truthy v then Thrown else Normal, evs))"
| "run n (Stmt (CCreate f)) s = run n (Create f) s"
| "run n (Exec []) s = Some (s, Normal, [])"
| "run n (Exec (c # cs)) s =
     (case run n (Stmt c) s of
        None \<Rightarrow> None
      | Some (s1, Thrown, evs) \<Rightarrow> Some (s1, Thrown, evs)
      | Some (s1, Normal, evs) \<Rightarrow>
          (case run n (Exec cs) s1 of
             None \<Rightarrow> None
           | Some (s2, out, evs') \<Rightarrow> Some (s2, out, evs @ evs')))"
  by pat_completeness auto
termination
  by (relation "measures [\<lambda>(n, c, s). n, \<lambda>(n, c, s). rank c, \<lambda>(n, c, s). extent c]") auto


declare run.simps [simp del]

text \<open>The functions of the source, by their names.\<close>

definition effect_call :: "nat \<Rightarrow> effect \<Rightarrow> val list \<Rightarrow> state \<Rightarrow> result option" where
  "effect_call n e args s = run n (Invoke e args) s"

definition createEffect :: "nat \<Rightarrow> cmd list \<Rightarrow> state \<Rightarrow> result option" where
  "createEffect n f s = run n (Create f) s"

definition trigger :: "nat \<Rightarrow> nat \<Rightarrow> key \<Rightarrow> state \<Rightarrow> result option" where
  "trigger n target k s = run n (Trigger target k) s"

definition prop_set :: "nat \<Rightarrow> nat \<Rightarrow> key \<Rightarrow> val \<Rightarrow> state \<Rightarrow> result option" where
  "prop_set n r k v s = run n (Setter r k v) s"

section \<open>Making an object reactive\<close>

text \<open>
  \<^verbatim>\<open>Object.keys\<close>: the own enumerable keys, the array indices first in ascending order,
  then the other keys in the order of their creation.
\<close>

definition key_order :: "key list \<Rightarrow> key list" where
  "key_order ks = sort_key dec (filter is_index ks) @ filter (\<lambda>k. \<not> is_index k) ks"

definition object_keys :: "obj \<Rightarrow> key list" where
  "object_keys ob = key_order (map fst (filter (\<lambda>(k, p). enumerable p) ob))"

text \<open>
  The descriptor that \<^verbatim>\<open>reactive\<close> passes to \<^verbatim>\<open>Object.defineProperty\<close> holds the two
  closures, that is the variable they share; an attribute that a descriptor leaves out
  is taken as false. The keys come from \<^verbatim>\<open>Object.keys\<close> and the object is new, so every
  definition adds a property.
\<close>

record descriptor =
  cell :: val
  enumerable_attr :: "bool option"
  configurable_attr :: "bool option"

definition defineProperty :: "obj \<Rightarrow> key \<Rightarrow> descriptor \<Rightarrow> obj" where
  "defineProperty ob k d =
     AList.update k
       (Accessor (cell d)
          (case enumerable_attr d of None \<Rightarrow> False | Some b \<Rightarrow> b)
          (case configurable_attr d of None \<Rightarrow> False | Some b \<Rightarrow> b)) ob"

text \<open>
  The loop \<^verbatim>\<open>keys.forEach\<close> of \<^verbatim>\<open>reactive\<close>, from the object at \<open>r\<close> into the new object
  at \<open>r'\<close>: \<^verbatim>\<open>let value = obj[key]\<close> is a property read like any other.
\<close>

fun define_all :: "nat \<Rightarrow> nat \<Rightarrow> key list \<Rightarrow> state \<Rightarrow> state option" where
  "define_all r r' [] s = Some s"
| "define_all r r' (k # ks) s =
     (case prop_get r k s of
        None \<Rightarrow> None
      | Some (v, s1, evs) \<Rightarrow>
          define_all r r' ks
            (s1\<lparr>heap := (heap s1)[r' := defineProperty (heap s1 ! r') k
               \<lparr>cell = v, enumerable_attr = None, configurable_attr = None\<rparr>]\<rparr>))"

definition reactive :: "nat \<Rightarrow> state \<Rightarrow> (nat \<times> state) option" where
  "reactive r s =
     (case lookup_obj s r of
        None \<Rightarrow> None
      | Some ob \<Rightarrow>
          (let ks = object_keys ob; r' = length (heap s)
           in (case define_all r r' ks (s\<lparr>heap := heap s @ [[]]\<rparr>) of
                 None \<Rightarrow> None
               | Some s' \<Rightarrow> Some (r', s'))))"

section \<open>Histories\<close>

text \<open>
  The state in which the module is loaded, over a given heap, and a sequence of tasks
  run one after the other on the empty call stack; a task that throws ends, the next
  one starts from the state it left.
\<close>

definition init :: "obj list \<Rightarrow> state" where
  "init h = \<lparr>depsMap = [], currentEffect = None, effectsStack = [], heap = h, fresh = 0\<rparr>"

fun session :: "nat \<Rightarrow> cmd list list \<Rightarrow> state \<Rightarrow> (state \<times> event list) option" where
  "session n [] s = Some (s, [])"
| "session n (t # ts) s =
     (case run n (Exec t) s of
        None \<Rightarrow> None
      | Some (s1, out, evs) \<Rightarrow>
          (case session n ts s1 of
             None \<Rightarrow> None
           | Some (s2, evs') \<Rightarrow> Some (s2, evs @ evs')))"

section \<open>Reading the tree of events\<close>

text \<open>The wrappers called directly, with the arguments passed.\<close>

fun calls :: "event list \<Rightarrow> (effect \<times> val list) list" where
  "calls [] = []"
| "calls (Ran e args sub # evs) = (e, args) # calls evs"
| "calls (Skipped e args # evs) = (e, args) # calls evs"
| "calls (Got r k # evs) = calls evs"

text \<open>How often the computation of \<open>e\<close> was run directly.\<close>

fun runs_of :: "effect \<Rightarrow> event list \<Rightarrow> nat" where
  "runs_of e [] = 0"
| "runs_of e (Ran e' args sub # evs) = (if e' = e then Suc (runs_of e evs) else runs_of e evs)"
| "runs_of e (ev # evs) = runs_of e evs"

text \<open>The accessor reads made directly.\<close>

fun gets :: "event list \<Rightarrow> (nat \<times> key) list" where
  "gets [] = []"
| "gets (Got r k # evs) = (r, k) # gets evs"
| "gets (ev # evs) = gets evs"

text \<open>Every effect whose computation ran, at any depth.\<close>

fun ran_in :: "event \<Rightarrow> effect list" where
  "ran_in (Ran e args sub) = e # concat (map ran_in sub)"
| "ran_in ev = []"

definition ran_deep :: "event list \<Rightarrow> effect list" where
  "ran_deep evs = concat (map ran_in evs)"

text \<open>Every accessor read made by the computation of an effect during one of its runs.\<close>

fun reads_in :: "event \<Rightarrow> (effect \<times> nat \<times> key) list" where
  "reads_in (Ran e args sub) = map (Pair e) (gets sub) @ concat (map reads_in sub)"
| "reads_in ev = []"

definition reads_by :: "event list \<Rightarrow> (effect \<times> nat \<times> key) list" where
  "reads_by evs = concat (map reads_in evs)"

section \<open>Invariants of the state\<close>

text \<open>The current effect is the top of the call stack, or none on the empty stack.\<close>

definition ctx_ok :: "state \<Rightarrow> bool" where
  "ctx_ok s =
     (currentEffect s = (if effectsStack s = [] then None else Some (last (effectsStack s))))"

text \<open>A subscriber set has no effect twice.\<close>

definition sets_ok :: "state \<Rightarrow> bool" where
  "sets_ok s = list_all (\<lambda>(t, deps). list_all (\<lambda>(k, dep). distinct dep) deps) (depsMap s)"

definition registered :: "state \<Rightarrow> (effect \<times> nat \<times> key) set" where
  "registered s = {(e, t, k). \<exists>dep. subscribers s t k = Some dep \<and> e \<in> set dep}"


text \<open>The variable \<^verbatim>\<open>value\<close> of the accessor pair of a reactive property.\<close>

definition stored :: "state \<Rightarrow> nat \<Rightarrow> key \<Rightarrow> val option" where
  "stored s r k =
     (case lookup_obj s r of
        None \<Rightarrow> None
      | Some ob \<Rightarrow>
          (case map_of ob k of
             Some (Accessor v en cf) \<Rightarrow> Some v
           | _ \<Rightarrow> None))"

text \<open>The top of the call stack, \<^verbatim>\<open>effectsStack[effectsStack.length - 1] || null\<close>.\<close>

definition top :: "effect list \<Rightarrow> effect option" where
  "top st = (if st = [] then None else Some (last st))"

section \<open>A reactive object for the examples\<close>

text \<open>
  The heap after \<^verbatim>\<open>reactive({p: 0, q: 7})\<close>: the plain object at address 0 and the
  reactive one at address 1.
\<close>

definition demo_heap :: "obj list" where
  "demo_heap =
     [[(''p'', Data (Num 0) True), (''q'', Data (Num 7) True)],
      [(''p'', Accessor (Num 0) False False), (''q'', Accessor (Num 7) False False)]]"

definition demo :: state where
  "demo = init demo_heap"

text \<open>An effect that assigns to the property it has read.\<close>

definition selfw :: effect where
  "selfw = Effect 0 [CRead 1 ''p'', CWrite 1 ''p'' (Lit (Num 3))]"

text \<open>An effect that throws once the property is truthy, and one that only reads it.\<close>

definition thrower :: effect where
  "thrower = Effect 0 [CThrowIf (PropOf 1 ''p'')]"

definition reader :: effect where
  "reader = Effect 1 [CRead 1 ''p'']"

text \<open>The state after both were created, in this order, by two tasks.\<close>

definition two_subs :: state where
  "two_subs = demo\<lparr>depsMap := [(1, [(''p'', [thrower, reader])])], fresh := 2\<rparr>"

text \<open>The events of a call that returned.\<close>

definition events_of :: "result option \<Rightarrow> event list" where
  "events_of res = (case res of None \<Rightarrow> [] | Some (s, out, evs) \<Rightarrow> evs)"

text \<open>The state after the reading effect alone has run.\<close>

definition one_sub :: state where
  "one_sub = demo\<lparr>depsMap := [(1, [(''p'', [reader])])]\<rparr>"

text \<open>An effect that, each time it runs, creates a further effect reading the same property.\<close>

definition spawner :: effect where
  "spawner = Effect 0 [CRead 1 ''p'', CCreate [CRead 1 ''p'']]"

text \<open>The state after the spawning effect was created.\<close>

definition spawned :: state where
  "spawned = demo\<lparr>depsMap := [(1, [(''p'', [spawner, Effect 1 [CRead 1 ''p'']])])], fresh := 2\<rparr>"


text \<open>An effect that reads the other property, and one that copies the first into the other.\<close>

definition reader_q :: effect where
  "reader_q = Effect 2 [CRead 1 ''q'']"

definition copier :: effect where
  "copier = Effect 0 [CWrite 1 ''q'' (PropOf 1 ''p'')]"

text \<open>The state after an effect reading the one and an effect reading the other were created.\<close>

definition both_keys :: state where
  "both_keys = demo\<lparr>depsMap := [(1, [(''p'', [Effect 0 (fn reader)]), (''q'', [Effect 1 (fn reader_q)])])],
     fresh := 2\<rparr>"

text \<open>The state after the copying effect was created.\<close>

definition copied :: state where
  "copied = demo\<lparr>depsMap := [(1, [(''p'', [copier])])],
     heap := [[(''p'', Data (Num 0) True), (''q'', Data (Num 7) True)],
       [(''p'', Accessor (Num 0) False False), (''q'', Accessor (Num 0) False False)]],
     fresh := 1\<rparr>"

text \<open>The coordinates to which the statements of a computation assign.\<close>

fun writes :: "cmd list \<Rightarrow> (nat \<times> key) list" where
  "writes [] = []"
| "writes (CWrite r k e # cs) = (r, k) # writes cs"
| "writes (c # cs) = writes cs"

text \<open>Every effect in the state was created before: its identity is below the next one.\<close>

definition fresh_ok :: "state \<Rightarrow> bool" where
  "fresh_ok s =
     ((\<forall>(e, t, k) \<in> registered s. ident e < fresh s)
      \<and> (\<forall>e \<in> set (effectsStack s). ident e < fresh s)
      \<and> (\<forall>e. currentEffect s = Some e \<longrightarrow> ident e < fresh s))"

fun known :: "call \<Rightarrow> state \<Rightarrow> bool" where
  "known (Invoke e args) s = (ident e < fresh s)"
| "known (ForEach es) s = (\<forall>e \<in> set es. ident e < fresh s)"
| "known c s = True"

text \<open>A call that, by itself, neither calls the wrapper of \<open>x\<close> nor assigns to a property for which \<open>x\<close> is registered.\<close>

fun avoids :: "effect \<Rightarrow> state \<Rightarrow> call \<Rightarrow> bool" where
  "avoids x s (Exec cs) = (\<forall>(t, k) \<in> set (writes cs). (x, t, k) \<notin> registered s)"
| "avoids x s (Stmt c) = (\<forall>(t, k) \<in> set (writes [c]). (x, t, k) \<notin> registered s)"
| "avoids x s (Setter t k v) = ((x, t, k) \<notin> registered s)"
| "avoids x s (Trigger t k) = ((x, t, k) \<notin> registered s)"
| "avoids x s (ForEach es) = (x \<notin> set es)"
| "avoids x s (Invoke e args) = (e \<noteq> x)"
| "avoids x s (Create f) = True"

text \<open>An effect that copies the other property into the first.\<close>

definition relay :: effect where
  "relay = Effect 1 [CWrite 1 ''p'' (PropOf 1 ''q'')]"

text \<open>The state after the reading effect and then the relaying effect were created.\<close>

definition relayed :: state where
  "relayed = demo\<lparr>depsMap := [(1, [(''p'', [Effect 0 (fn reader)]), (''q'', [relay])])],
     heap := [[(''p'', Data (Num 0) True), (''q'', Data (Num 7) True)],
       [(''p'', Accessor (Num 7) False False), (''q'', Accessor (Num 7) False False)]],
     fresh := 2\<rparr>"

text \<open>Every accessor read, at any depth.\<close>

fun gets_in :: "event \<Rightarrow> (nat \<times> key) list" where
  "gets_in (Got r k) = [(r, k)]"
| "gets_in (Ran e args sub) = concat (map gets_in sub)"
| "gets_in (Skipped e args) = []"

definition gets_deep :: "event list \<Rightarrow> (nat \<times> key) list" where
  "gets_deep evs = concat (map gets_in evs)"

text \<open>A call that, by itself, does not assign to the property \<open>(t, k)\<close>.\<close>

fun spares :: "nat \<Rightarrow> key \<Rightarrow> call \<Rightarrow> bool" where
  "spares t k (Exec cs) = ((t, k) \<notin> set (writes cs))"
| "spares t k (Stmt c) = ((t, k) \<notin> set (writes [c]))"
| "spares t k (Setter r k' v) = ((r, k') \<noteq> (t, k))"
| "spares t k c = True"

text \<open>The value that a property holds, and what \<^verbatim>\<open>obj[key]\<close> gives.\<close>

fun value_of :: "property \<Rightarrow> val" where
  "value_of (Data v en) = v"
| "value_of (Accessor v en cf) = v"

definition get_value :: "obj \<Rightarrow> key \<Rightarrow> val" where
  "get_value ob k =
     (case map_of ob k of
        None \<Rightarrow> (if k \<in> set proto_names then Inherited k else Undefined)
      | Some p \<Rightarrow> value_of p)"

text \<open>The object that \<^verbatim>\<open>reactive\<close> builds from a given one.\<close>

definition wrap :: "obj \<Rightarrow> obj" where
  "wrap ob = map (\<lambda>k. (k, Accessor (get_value ob k) False False)) (object_keys ob)"

text \<open>The keys of an object whose access is intercepted by an accessor pair.\<close>

fun intercepted_property :: "property \<Rightarrow> bool" where
  "intercepted_property (Data v en) = False"
| "intercepted_property (Accessor v en cf) = True"

definition intercepted :: "obj \<Rightarrow> key list" where
  "intercepted ob = map fst (filter (\<lambda>(k, p). intercepted_property p) ob)"

text \<open>What a property is, apart from the value it holds, and the properties of an object so described.\<close>

datatype kind = KData bool | KAccessor bool bool

fun kind_of :: "property \<Rightarrow> kind" where
  "kind_of (Data v en) = KData en"
| "kind_of (Accessor v en cf) = KAccessor en cf"

definition shape :: "obj \<Rightarrow> (key \<times> kind) list" where
  "shape ob = map (\<lambda>(k, p). (k, kind_of p)) ob"

text \<open>
  A later state: one reached by any number of calls, of the functions above and of
  \<^verbatim>\<open>reactive\<close>, each returning.
\<close>

inductive later :: "state \<Rightarrow> state \<Rightarrow> bool" where
  later_now: "later s s"
| later_run: "later s s1 \<Longrightarrow> run n c s1 = Some (s2, out, evs) \<Longrightarrow> later s s2"
| later_reactive: "later s s1 \<Longrightarrow> reactive r s1 = Some (r', s2) \<Longrightarrow> later s s2"

text \<open>
  In the second state every object of the first is there, with the properties it had,
  each of the kind it was, followed by enumerable data properties.
\<close>

definition grown :: "state \<Rightarrow> state \<Rightarrow> bool" where
  "grown s s' =
     (length (heap s) \<le> length (heap s')
      \<and> (\<forall>i < length (heap s).
            \<exists>ks. shape (heap s' ! i) = shape (heap s ! i) @ map (\<lambda>k. (k, KData True)) ks))"


fun kind_enumerable :: "kind \<Rightarrow> bool" where
  "kind_enumerable (KData en) = en"
| "kind_enumerable (KAccessor en cf) = en"

text \<open>
  The heap before \<^verbatim>\<open>reactive\<close> was called on the object of the examples, and the state
  after the property \<open>z\<close> was assigned to the reactive object.
\<close>

definition source_heap :: "obj list" where
  "source_heap = [[(''p'', Data (Num 0) True), (''q'', Data (Num 7) True)]]"

definition extended :: state where
  "extended = demo\<lparr>heap := [[(''p'', Data (Num 0) True), (''q'', Data (Num 7) True)],
     [(''p'', Accessor (Num 0) False False), (''q'', Accessor (Num 7) False False),
      (''z'', Data (Num 1) True)]]\<rparr>"


section \<open>What the parts leave alone\<close>

lemma track_frame [simp]:
  "effectsStack (track t k s) = effectsStack s"
  "currentEffect (track t k s) = currentEffect s"
  "heap (track t k s) = heap s"
  "fresh (track t k s) = fresh s"
  by (simp_all add: track_def Let_def split: option.splits)

lemma prop_get_frame:
  assumes "prop_get r k s = Some (v, s1, evs)"
  shows "effectsStack s1 = effectsStack s" and "currentEffect s1 = currentEffect s"
    and "heap s1 = heap s" and "fresh s1 = fresh s"
  using assms by (auto simp: prop_get_def split: option.splits property.splits)

lemma eval_frame:
  assumes "eval e s = Some (v, s1, evs)"
  shows "effectsStack s1 = effectsStack s" and "currentEffect s1 = currentEffect s"
    and "heap s1 = heap s" and "fresh s1 = fresh s"
  using assms by (cases e; auto dest: prop_get_frame)+

lemma store_frame [simp]:
  "effectsStack (store s r k p) = effectsStack s"
  "currentEffect (store s r k p) = currentEffect s"
  "depsMap (store s r k p) = depsMap s"
  "fresh (store s r k p) = fresh s"
  by (simp_all add: store_def)

section \<open>The cases of a call that returns\<close>
lemma run_InvokeE:
  assumes "run n (Invoke e args) s = Some (s', out, evs)"
  obtains (skip) "e \<in> set (effectsStack s)" "s' = s" "out = Normal" "evs = [Skipped e args]"
  | (ran) s1 sub where "e \<notin> set (effectsStack s)" "n \<noteq> 0"
      "run (n - 1) (Exec (fn e)) (enter e s) = Some (s1, out, sub)"
      "s' = unwind s1" "evs = [Ran e args sub]"
  using assms by (auto simp: run.simps(1) split: if_splits option.splits)

lemma run_CreateE:
  assumes "run n (Create f) s = Some (s', out, evs)"
  shows "run n (Invoke (Effect (fresh s) f) []) (s\<lparr>fresh := Suc (fresh s)\<rparr>) = Some (s', out, evs)"
  using assms by (simp add: run.simps(2))

lemma run_TriggerE:
  assumes "run n (Trigger t k) s = Some (s', out, evs)"
  obtains (none) "subscribers s t k = None" "s' = s" "out = Normal" "evs = []"
  | (pass) deps dep where "map_of (depsMap s) t = Some deps" "map_of deps k = Some dep"
      "subscribers s t k = Some dep" "run n (ForEach dep) s = Some (s', out, evs)"
  using assms by (auto simp: run.simps(3) subscribers_def split: option.splits)

lemma run_ForEach_NilE:
  assumes "run n (ForEach []) s = Some (s', out, evs)"
  shows "s' = s \<and> out = Normal \<and> evs = []"
  using assms by (simp add: run.simps(4))

lemma run_ForEach_ConsE:
  assumes "run n (ForEach (e # es)) s = Some (s', out, evs)"
  obtains (thrown) "run n (Invoke e []) s = Some (s', Thrown, evs)" "out = Thrown"
  | (normal) s1 ev1 ev2 where "run n (Invoke e []) s = Some (s1, Normal, ev1)"
      "run n (ForEach es) s1 = Some (s', out, ev2)" "evs = ev1 @ ev2"
  using assms by (auto simp: run.simps(5) split: option.splits outcome.splits)

lemma run_SetterE:
  assumes "run n (Setter r k v) s = Some (s', out, evs)"
  obtains (dangling) "lookup_obj s r = None" "s' = s" "out = Thrown" "evs = []"
  | (proto_kept) ob where "lookup_obj s r = Some ob" "map_of ob k = None"
      "k = ''__proto__''" "keeps_prototype v" "s' = s" "out = Normal" "evs = []"
  | (fresh_key) ob where "lookup_obj s r = Some ob" "map_of ob k = None"
      "k \<noteq> ''__proto__''" "s' = store s r k (Data v True)" "out = Normal" "evs = []"
  | (data) ob old en where "lookup_obj s r = Some ob" "map_of ob k = Some (Data old en)"
      "s' = store s r k (Data v en)" "out = Normal" "evs = []"
  | (same) ob old en cf where "lookup_obj s r = Some ob" "map_of ob k = Some (Accessor old en cf)"
      "strict_eq v old" "s' = s" "out = Normal" "evs = []"
  | (changed) ob old en cf where "lookup_obj s r = Some ob"
      "map_of ob k = Some (Accessor old en cf)" "\<not> strict_eq v old"
      "run n (Trigger r k) (store s r k (Accessor v en cf)) = Some (s', out, evs)"
  using assms by (auto simp: run.simps(6) split: option.splits property.splits if_splits)

lemma run_StmtE:
  assumes "run n (Stmt c) s = Some (s', out, evs)"
  obtains (read_fail) r k where "c = CRead r k" "prop_get r k s = None" "s' = s" "out = Thrown" "evs = []"
  | (rd) r k v where "c = CRead r k" "prop_get r k s = Some (v, s', evs)" "out = Normal"
  | (eval_fail) e where "(\<exists>r k. c = CWrite r k e) \<or> c = CThrowIf e" "eval e s = None"
      "s' = s" "out = Thrown" "evs = []"
  | (assign) r k e v s1 ev1 ev2 where "c = CWrite r k e" "eval e s = Some (v, s1, ev1)"
      "run n (Setter r k v) s1 = Some (s', out, ev2)" "evs = ev1 @ ev2"
  | (throw_if) e v where "c = CThrowIf e" "eval e s = Some (v, s', evs)"
      "out = (if truthy v then Thrown else Normal)"
  | (create) f where "c = CCreate f" "run n (Create f) s = Some (s', out, evs)"
  using assms
  by (cases c) (auto simp: run.simps split: option.splits)

lemma run_Exec_NilE:
  assumes "run n (Exec []) s = Some (s', out, evs)"
  shows "s' = s \<and> out = Normal \<and> evs = []"
  using assms by (simp add: run.simps)

lemma run_Exec_ConsE:
  assumes "run n (Exec (c # cs)) s = Some (s', out, evs)"
  obtains (thrown) "run n (Stmt c) s = Some (s', Thrown, evs)" "out = Thrown"
  | (normal) s1 ev1 ev2 where "run n (Stmt c) s = Some (s1, Normal, ev1)"
      "run n (Exec cs) s1 = Some (s', out, ev2)" "evs = ev1 @ ev2"
  using assms by (auto simp: run.simps split: option.splits outcome.splits)

section \<open>Induction on a call that returns\<close>

lemma run_induct [consumes 1, case_names Skip Ran Create TriggerNone TriggerPass ForEachNil
    ForEachThrown ForEachCons SetDangling SetProto SetNew SetData SetSame SetChanged ReadFail Read
    WriteFail Write ThrowFail ThrowIf CreateStmt ExecNil ExecThrown ExecCons]:
  assumes major: "run n c s = Some (s', out, evs)"
    and Skip: "\<And>e args s. e \<in> set (effectsStack s) \<Longrightarrow>
        P (Invoke e args) s s Normal [Skipped e args]"
    and Ran: "\<And>n e args s s1 out sub. \<lbrakk>e \<notin> set (effectsStack s);
        run n (Exec (fn e)) (enter e s) = Some (s1, out, sub);
        P (Exec (fn e)) (enter e s) s1 out sub\<rbrakk> \<Longrightarrow>
        P (Invoke e args) s (unwind s1) out [Ran e args sub]"
    and Create: "\<And>n f s s' out evs.
        \<lbrakk>run n (Invoke (Effect (fresh s) f) []) (s\<lparr>fresh := Suc (fresh s)\<rparr>) = Some (s', out, evs);
        P (Invoke (Effect (fresh s) f) []) (s\<lparr>fresh := Suc (fresh s)\<rparr>) s' out evs\<rbrakk> \<Longrightarrow>
        P (Create f) s s' out evs"
    and TriggerNone: "\<And>t k s. subscribers s t k = None \<Longrightarrow> P (Trigger t k) s s Normal []"
    and TriggerPass: "\<And>n t k s dep s' out evs. \<lbrakk>subscribers s t k = Some dep;
        run n (ForEach dep) s = Some (s', out, evs); P (ForEach dep) s s' out evs\<rbrakk> \<Longrightarrow>
        P (Trigger t k) s s' out evs"
    and ForEachNil: "\<And>s. P (ForEach []) s s Normal []"
    and ForEachThrown: "\<And>n e es s s' evs. \<lbrakk>run n (Invoke e []) s = Some (s', Thrown, evs);
        P (Invoke e []) s s' Thrown evs\<rbrakk> \<Longrightarrow> P (ForEach (e # es)) s s' Thrown evs"
    and ForEachCons: "\<And>n e es s s1 ev1 s' out ev2.
        \<lbrakk>run n (Invoke e []) s = Some (s1, Normal, ev1); P (Invoke e []) s s1 Normal ev1;
        run n (ForEach es) s1 = Some (s', out, ev2); P (ForEach es) s1 s' out ev2\<rbrakk> \<Longrightarrow>
        P (ForEach (e # es)) s s' out (ev1 @ ev2)"
    and SetDangling: "\<And>r k v s. lookup_obj s r = None \<Longrightarrow> P (Setter r k v) s s Thrown []"
    and SetProto: "\<And>r k v s ob. \<lbrakk>lookup_obj s r = Some ob; map_of ob k = None;
        k = ''__proto__''; keeps_prototype v\<rbrakk> \<Longrightarrow> P (Setter r k v) s s Normal []"
    and SetNew: "\<And>r k v s ob. \<lbrakk>lookup_obj s r = Some ob; map_of ob k = None;
        k \<noteq> ''__proto__''\<rbrakk> \<Longrightarrow>
        P (Setter r k v) s (store s r k (Data v True)) Normal []"
    and SetData: "\<And>r k v s ob old en. \<lbrakk>lookup_obj s r = Some ob;
        map_of ob k = Some (Data old en)\<rbrakk> \<Longrightarrow>
        P (Setter r k v) s (store s r k (Data v en)) Normal []"
    and SetSame: "\<And>r k v s ob old en cf. \<lbrakk>lookup_obj s r = Some ob;
        map_of ob k = Some (Accessor old en cf); strict_eq v old\<rbrakk> \<Longrightarrow>
        P (Setter r k v) s s Normal []"
    and SetChanged: "\<And>n r k v s ob old en cf s' out evs. \<lbrakk>lookup_obj s r = Some ob;
        map_of ob k = Some (Accessor old en cf); \<not> strict_eq v old;
        run n (Trigger r k) (store s r k (Accessor v en cf)) = Some (s', out, evs);
        P (Trigger r k) (store s r k (Accessor v en cf)) s' out evs\<rbrakk> \<Longrightarrow>
        P (Setter r k v) s s' out evs"
    and ReadFail: "\<And>r k s. prop_get r k s = None \<Longrightarrow> P (Stmt (CRead r k)) s s Thrown []"
    and Read: "\<And>r k s v s' evs. prop_get r k s = Some (v, s', evs) \<Longrightarrow>
        P (Stmt (CRead r k)) s s' Normal evs"
    and WriteFail: "\<And>r k e s. eval e s = None \<Longrightarrow> P (Stmt (CWrite r k e)) s s Thrown []"
    and Write: "\<And>n r k e s v s1 ev1 s' out ev2. \<lbrakk>eval e s = Some (v, s1, ev1);
        run n (Setter r k v) s1 = Some (s', out, ev2); P (Setter r k v) s1 s' out ev2\<rbrakk> \<Longrightarrow>
        P (Stmt (CWrite r k e)) s s' out (ev1 @ ev2)"
    and ThrowFail: "\<And>e s. eval e s = None \<Longrightarrow> P (Stmt (CThrowIf e)) s s Thrown []"
    and ThrowIf: "\<And>e s v s' evs. eval e s = Some (v, s', evs) \<Longrightarrow>
        P (Stmt (CThrowIf e)) s s' (if truthy v then Thrown else Normal) evs"
    and CreateStmt: "\<And>n f s s' out evs. \<lbrakk>run n (Create f) s = Some (s', out, evs);
        P (Create f) s s' out evs\<rbrakk> \<Longrightarrow> P (Stmt (CCreate f)) s s' out evs"
    and ExecNil: "\<And>s. P (Exec []) s s Normal []"
    and ExecThrown: "\<And>n c cs s s' evs. \<lbrakk>run n (Stmt c) s = Some (s', Thrown, evs);
        P (Stmt c) s s' Thrown evs\<rbrakk> \<Longrightarrow> P (Exec (c # cs)) s s' Thrown evs"
    and ExecCons: "\<And>n c cs s s1 ev1 s' out ev2.
        \<lbrakk>run n (Stmt c) s = Some (s1, Normal, ev1); P (Stmt c) s s1 Normal ev1;
        run n (Exec cs) s1 = Some (s', out, ev2); P (Exec cs) s1 s' out ev2\<rbrakk> \<Longrightarrow>
        P (Exec (c # cs)) s s' out (ev1 @ ev2)"
  shows "P c s s' out evs"
  using major
proof (induction n c s arbitrary: s' out evs rule: run.induct)
  case (1 n e args s)
  from "1.prems" show ?case
  proof (cases rule: run_InvokeE)
    case skip
    then show ?thesis using Skip by simp
  next
    case (ran s1 sub)
    from "1.IH"[OF ran(1,2,3)] ran show ?thesis using Ran by simp
  qed
next
  case (2 n f s)
  from "2.IH"[OF run_CreateE[OF "2.prems"]] run_CreateE[OF "2.prems"] show ?case
    by (rule Create[rotated])
next
  case (3 n target k s)
  from "3.prems" show ?case
  proof (cases rule: run_TriggerE)
    case none
    then show ?thesis using TriggerNone by simp
  next
    case (pass deps dep)
    from "3.IH"[OF pass(1,2,4)] pass show ?thesis using TriggerPass by blast
  qed
next
  case (4 n s)
  then show ?case using ForEachNil by (auto dest: run_ForEach_NilE)
next
  case (5 n e es s)
  from "5.prems" show ?case
  proof (cases rule: run_ForEach_ConsE)
    case thrown
    with "5.IH"(1) show ?thesis using ForEachThrown by blast
  next
    case (normal s1 ev1 ev2)
    have a: "P (Invoke e []) s s1 Normal ev1" using "5.IH"(1) normal(1) by blast
    have b: "P (ForEach es) s1 s' out ev2" using "5.IH"(2) normal(1,2) by simp
    show ?thesis using ForEachCons[OF normal(1) a normal(2) b] normal(3) by simp
  qed
next
  case (6 n r k v s)
  from "6.prems" show ?case
  proof (cases rule: run_SetterE)
    case dangling
    then show ?thesis using SetDangling by simp
  next
    case (proto_kept ob)
    then show ?thesis using SetProto by simp
  next
    case (fresh_key ob)
    then show ?thesis using SetNew by simp
  next
    case (data ob old en)
    then show ?thesis using SetData by simp
  next
    case (same ob old en cf)
    then show ?thesis using SetSame by simp
  next
    case (changed ob old en cf)
    have "P (Trigger r k) (store s r k (Accessor v en cf)) s' out evs"
      using "6.IH" changed by simp
    with changed show ?thesis using SetChanged by blast
  qed
next
  case (7 n r k s)
  from "7.prems" show ?case
    by (cases rule: run_StmtE) (use ReadFail Read in auto)
next
  case (8 n r k e s)
  from "8.prems" show ?case
  proof (cases rule: run_StmtE)
    case (eval_fail e)
    then show ?thesis using WriteFail by auto
  next
    case (assign r' k' e' v s1 ev1 ev2)
    then have "P (Setter r k v) s1 s' out ev2" using "8.IH" by simp
    with assign show ?thesis using Write by blast
  qed simp_all
next
  case (9 n e s)
  from "9.prems" show ?case
    by (cases rule: run_StmtE) (use ThrowFail ThrowIf in auto)
next
  case (10 n f s)
  from "10.prems" show ?case
  proof (cases rule: run_StmtE)
    case (create f')
    then have "P (Create f) s s' out evs" using "10.IH" by simp
    with create show ?thesis using CreateStmt by blast
  qed simp_all
next
  case (11 n s)
  then show ?case using ExecNil by (auto dest: run_Exec_NilE)
next
  case (12 n c cs s)
  from "12.prems" show ?case
  proof (cases rule: run_Exec_ConsE)
    case thrown
    with "12.IH"(1) show ?thesis using ExecThrown by blast
  next
    case (normal s1 ev1 ev2)
    have a: "P (Stmt c) s s1 Normal ev1" using "12.IH"(1) normal(1) by blast
    have b: "P (Exec cs) s1 s' out ev2" using "12.IH"(2) normal(1,2) by simp
    show ?thesis using ExecCons[OF normal(1) a normal(2) b] normal(3) by simp
  qed
qed

lemma run_stack:
  "run n c s = Some (s', out, evs) \<Longrightarrow> effectsStack s' = effectsStack s"
proof (induction rule: run_induct)
  case (Ran n e args s s1 out sub)
  then show ?case by (simp add: enter_def unwind_def Let_def)
qed (auto dest: prop_get_frame(1) eval_frame(1))

section \<open>Invariants of a call\<close>

lemma ctx_ok_simps [simp]:
  "ctx_ok (unwind s)"
  "ctx_ok (enter e s)"
  "ctx_ok (track t k s) = ctx_ok s"
  "ctx_ok (store s r k p) = ctx_ok s"
  "ctx_ok (s\<lparr>fresh := m\<rparr>) = ctx_ok s"
  by (simp_all add: ctx_ok_def unwind_def enter_def Let_def)

lemma prop_get_ctx: "prop_get r k s = Some (v, s1, evs) \<Longrightarrow> ctx_ok s1 = ctx_ok s"
  by (auto simp: prop_get_def split: option.splits property.splits)

lemma eval_ctx: "eval e s = Some (v, s1, evs) \<Longrightarrow> ctx_ok s1 = ctx_ok s"
  by (cases e) (auto dest: prop_get_ctx)

lemma run_ctx:
  "run n c s = Some (s', out, evs) \<Longrightarrow> ctx_ok s \<Longrightarrow> ctx_ok s'"
  by (induction rule: run_induct) (auto dest: prop_get_ctx eval_ctx)

lemma run_current:
  assumes "run n c s = Some (s', out, evs)" and "ctx_ok s"
  shows "currentEffect s' = currentEffect s"
  using run_ctx[OF assms] run_stack[OF assms(1)] assms(2) by (simp add: ctx_ok_def)

lemma subscribers_track:
  "subscribers (track t k s) t' k' =
     (case currentEffect s of
        None \<Rightarrow> subscribers s t' k'
      | Some e \<Rightarrow>
          if t' = t \<and> k' = k
          then Some (let dep = (case subscribers s t k of None \<Rightarrow> [] | Some d \<Rightarrow> d)
                     in if e \<in> set dep then dep else dep @ [e])
          else subscribers s t' k')"
  by (auto simp: subscribers_def track_def Let_def update_conv' split: option.splits)

lemma registered_track:
  "registered (track t k s) =
     registered s \<union> (case currentEffect s of None \<Rightarrow> {} | Some e \<Rightarrow> {(e, t, k)})"
  by (auto simp: registered_def subscribers_track Let_def split: option.splits if_splits)

lemma registered_frame [simp]:
  "registered (unwind s) = registered s"
  "registered (enter e s) = registered s"
  "registered (store s r k p) = registered s"
  "registered (s\<lparr>fresh := m\<rparr>) = registered s"
  by (simp_all add: registered_def subscribers_def unwind_def enter_def Let_def)

lemma prop_get_registered:
  "prop_get r k s = Some (v, s1, evs) \<Longrightarrow>
   registered s1 = registered s \<union>
     (case currentEffect s of None \<Rightarrow> {} | Some e \<Rightarrow> Pair e ` set (gets evs))"
  by (auto simp: prop_get_def registered_track split: option.splits property.splits)

lemma eval_registered:
  "eval e s = Some (v, s1, evs) \<Longrightarrow>
   registered s1 = registered s \<union>
     (case currentEffect s of None \<Rightarrow> {} | Some e \<Rightarrow> Pair e ` set (gets evs))"
  by (cases e) (auto dest: prop_get_registered split: option.splits)

lemma run_registered_mono:
  "run n c s = Some (s', out, evs) \<Longrightarrow> registered s \<subseteq> registered s'"
  by (induction rule: run_induct) (auto dest!: prop_get_registered eval_registered)

lemma enter_simps [simp]:
  "currentEffect (enter e s) = Some e"
  "effectsStack (enter e s) = effectsStack s @ [e]"
  "depsMap (enter e s) = depsMap s"
  "heap (enter e s) = heap s"
  "fresh (enter e s) = fresh s"
  by (simp_all add: enter_def)

lemma unwind_simps [simp]:
  "effectsStack (unwind s) = butlast (effectsStack s)"
  "depsMap (unwind s) = depsMap s"
  "heap (unwind s) = heap s"
  "fresh (unwind s) = fresh s"
  by (simp_all add: unwind_def Let_def)

lemma gets_append [simp]: "gets (xs @ ys) = gets xs @ gets ys"
  by (induction xs rule: gets.induct) auto

lemma calls_append [simp]: "calls (xs @ ys) = calls xs @ calls ys"
  by (induction xs rule: calls.induct) auto

lemma runs_of_append [simp]: "runs_of e (xs @ ys) = runs_of e xs + runs_of e ys"
  by (induction e xs rule: runs_of.induct) auto

lemma ran_deep_simps [simp]:
  "ran_deep [] = []"
  "ran_deep (xs @ ys) = ran_deep xs @ ran_deep ys"
  "ran_deep (Ran e args sub # evs) = e # ran_deep sub @ ran_deep evs"
  "ran_deep (Skipped e args # evs) = ran_deep evs"
  "ran_deep (Got r k # evs) = ran_deep evs"
  by (simp_all add: ran_deep_def)

lemma reads_by_simps [simp]:
  "reads_by [] = []"
  "reads_by (xs @ ys) = reads_by xs @ reads_by ys"
  "reads_by (Ran e args sub # evs) = map (Pair e) (gets sub) @ reads_by sub @ reads_by evs"
  "reads_by (Skipped e args # evs) = reads_by evs"
  "reads_by (Got r k # evs) = reads_by evs"
  by (simp_all add: reads_by_def)

lemma prop_get_events:
  "prop_get r k s = Some (v, s1, evs) \<Longrightarrow> calls evs = [] \<and> ran_deep evs = [] \<and> reads_by evs = []"
  by (auto simp: prop_get_def split: option.splits property.splits)

lemma eval_events:
  "eval e s = Some (v, s1, evs) \<Longrightarrow> calls evs = [] \<and> ran_deep evs = [] \<and> reads_by evs = []"
  by (cases e) (auto dest: prop_get_events)

lemma run_ran_not_active:
  "run n c s = Some (s', out, evs) \<Longrightarrow> set (ran_deep evs) \<inter> set (effectsStack s) = {}"
proof (induction rule: run_induct)
  case (Ran n e args s s1 out sub)
  then show ?case by auto
next
  case (ForEachCons n e es s s1 ev1 s' out ev2)
  then show ?case using run_stack[OF ForEachCons.hyps(1)] by auto
next
  case (Write n r k e s v s1 ev1 s' out ev2)
  then show ?case using eval_frame(1)[OF Write.hyps(1)] eval_events[OF Write.hyps(1)] by auto
next
  case (ExecCons n c cs s s1 ev1 s' out ev2)
  then show ?case using run_stack[OF ExecCons.hyps(1)] by auto
qed (auto dest: prop_get_events eval_events)

lemma prop_get_registered_mono:
  "prop_get r k s = Some (v, s1, evs) \<Longrightarrow> registered s \<subseteq> registered s1"
  by (auto dest: prop_get_registered)

lemma eval_registered_mono:
  "eval x s = Some (v, s1, evs) \<Longrightarrow> registered s \<subseteq> registered s1"
  by (auto dest: eval_registered)

lemma prop_get_read_registers:
  "prop_get r k s = Some (v, s1, evs) \<Longrightarrow> currentEffect s = Some e \<Longrightarrow>
   (t, k') \<in> set (gets evs) \<Longrightarrow> (e, t, k') \<in> registered s1"
  by (auto dest: prop_get_registered)

lemma eval_read_registers:
  "eval x s = Some (v, s1, evs) \<Longrightarrow> currentEffect s = Some e \<Longrightarrow>
   (t, k') \<in> set (gets evs) \<Longrightarrow> (e, t, k') \<in> registered s1"
  by (auto dest: eval_registered)

text \<open>A property read by the current effect registers it.\<close>

lemma run_read_registers:
  "run n c s = Some (s', out, evs) \<Longrightarrow> ctx_ok s \<Longrightarrow> currentEffect s = Some e \<Longrightarrow>
   (t, k') \<in> set (gets evs) \<Longrightarrow> (e, t, k') \<in> registered s'"
proof (induction rule: run_induct)
  case (ForEachCons n e' es s s1 ev1 s' out ev2)
  have c1: "ctx_ok s1" and c2: "currentEffect s1 = Some e"
    using run_ctx[OF ForEachCons.hyps(1)] run_current[OF ForEachCons.hyps(1)] ForEachCons.prems
    by simp_all
  from ForEachCons.prems(3) consider "(t, k') \<in> set (gets ev1)" | "(t, k') \<in> set (gets ev2)"
    by auto
  then show ?case
  proof cases
    case 1
    then have "(e, t, k') \<in> registered s1" using ForEachCons.IH(1) ForEachCons.prems by simp
    then show ?thesis using run_registered_mono[OF ForEachCons.hyps(2)] by blast
  next
    case 2
    then show ?thesis using ForEachCons.IH(2) c1 c2 by simp
  qed
next
  case (Write n r k x s v s1 ev1 s' out ev2)
  have c1: "ctx_ok s1" and c2: "currentEffect s1 = Some e"
    using eval_ctx[OF Write.hyps(1)] eval_frame(2)[OF Write.hyps(1)] Write.prems by simp_all
  from Write.prems(3) consider "(t, k') \<in> set (gets ev1)" | "(t, k') \<in> set (gets ev2)"
    by auto
  then show ?case
  proof cases
    case 1
    then have "(e, t, k') \<in> registered s1"
      using eval_read_registers[OF Write.hyps(1)] Write.prems by simp
    then show ?thesis using run_registered_mono[OF Write.hyps(2)] by blast
  next
    case 2
    then show ?thesis using Write.IH c1 c2 by simp
  qed
next
  case (ExecCons n c cs s s1 ev1 s' out ev2)
  have c1: "ctx_ok s1" and c2: "currentEffect s1 = Some e"
    using run_ctx[OF ExecCons.hyps(1)] run_current[OF ExecCons.hyps(1)] ExecCons.prems
    by simp_all
  from ExecCons.prems(3) consider "(t, k') \<in> set (gets ev1)" | "(t, k') \<in> set (gets ev2)"
    by auto
  then show ?case
  proof cases
    case 1
    then have "(e, t, k') \<in> registered s1" using ExecCons.IH(1) ExecCons.prems by simp
    then show ?thesis using run_registered_mono[OF ExecCons.hyps(2)] by blast
  next
    case 2
    then show ?thesis using ExecCons.IH(2) c1 c2 by simp
  qed
next
  case (Read r k s v s' evs)
  then show ?case using prop_get_read_registers by simp
next
  case (ThrowIf x s v s' evs)
  then show ?case using eval_read_registers by simp
qed simp_all

lemma prop_get_origin:
  "prop_get r k s = Some (v, s1, evs) \<Longrightarrow> (e, t, k') \<in> registered s1 \<Longrightarrow>
   (e, t, k') \<in> registered s \<or> (currentEffect s = Some e \<and> (t, k') \<in> set (gets evs))"
  by (auto dest!: prop_get_registered split: option.splits)

lemma eval_origin:
  "eval x s = Some (v, s1, evs) \<Longrightarrow> (e, t, k') \<in> registered s1 \<Longrightarrow>
   (e, t, k') \<in> registered s \<or> (currentEffect s = Some e \<and> (t, k') \<in> set (gets evs))"
  by (auto dest!: eval_registered split: option.splits)

text \<open>Whoever is registered was registered before or read the property as the current effect.\<close>

lemma run_registered_origin:
  "run n c s = Some (s', out, evs) \<Longrightarrow> ctx_ok s \<Longrightarrow> (e, t, k') \<in> registered s' \<Longrightarrow>
   (e, t, k') \<in> registered s \<or> (e, t, k') \<in> set (reads_by evs) \<or>
   (currentEffect s = Some e \<and> (t, k') \<in> set (gets evs))"
proof (induction rule: run_induct)
  case (Ran n e' args s s1 out sub)
  then have "(e, t, k') \<in> registered s \<or> (e, t, k') \<in> set (reads_by sub) \<or>
      (e' = e \<and> (t, k') \<in> set (gets sub))"
    by simp
  then show ?case by auto
next
  case (ForEachCons n e' es s s1 ev1 s' out ev2)
  have c1: "ctx_ok s1" and c2: "currentEffect s1 = currentEffect s"
    using run_ctx[OF ForEachCons.hyps(1)] run_current[OF ForEachCons.hyps(1)] ForEachCons.prems
    by simp_all
  from ForEachCons.IH(2)[OF c1 ForEachCons.prems(2)]
  consider "(e, t, k') \<in> registered s1" | "(e, t, k') \<in> set (reads_by ev2)"
    | "currentEffect s = Some e \<and> (t, k') \<in> set (gets ev2)"
    using c2 by auto
  then show ?case
  proof cases
    case 1
    from ForEachCons.IH(1)[OF ForEachCons.prems(1) 1] show ?thesis by auto
  qed auto
next
  case (Write n r k x s v s1 ev1 s' out ev2)
  have c1: "ctx_ok s1" and c2: "currentEffect s1 = currentEffect s"
    using eval_ctx[OF Write.hyps(1)] eval_frame(2)[OF Write.hyps(1)] Write.prems by simp_all
  have ev: "reads_by ev1 = []" using eval_events[OF Write.hyps(1)] by simp
  from Write.IH[OF c1 Write.prems(2)]
  consider "(e, t, k') \<in> registered s1" | "(e, t, k') \<in> set (reads_by ev2)"
    | "currentEffect s = Some e \<and> (t, k') \<in> set (gets ev2)"
    using c2 by auto
  then show ?case
  proof cases
    case 1
    from eval_origin[OF Write.hyps(1) 1] show ?thesis by auto
  qed auto
next
  case (ExecCons n c cs s s1 ev1 s' out ev2)
  have c1: "ctx_ok s1" and c2: "currentEffect s1 = currentEffect s"
    using run_ctx[OF ExecCons.hyps(1)] run_current[OF ExecCons.hyps(1)] ExecCons.prems
    by simp_all
  from ExecCons.IH(2)[OF c1 ExecCons.prems(2)]
  consider "(e, t, k') \<in> registered s1" | "(e, t, k') \<in> set (reads_by ev2)"
    | "currentEffect s = Some e \<and> (t, k') \<in> set (gets ev2)"
    using c2 by auto
  then show ?case
  proof cases
    case 1
    from ExecCons.IH(1)[OF ExecCons.prems(1) 1] show ?thesis by auto
  qed auto
next
  case (Read r k s v s' evs)
  then show ?case using prop_get_origin by blast
next
  case (ThrowIf x s v s' evs)
  then show ?case using eval_origin by blast
qed simp_all

lemma update_entry:
  "(a, b) \<in> set (AList.update k v al) \<Longrightarrow> (a, b) = (k, v) \<or> (a, b) \<in> set al"
  by (induction al) (auto split: if_splits)

lemma sets_ok_iff:
  "sets_ok s \<longleftrightarrow> (\<forall>t deps k dep. (t, deps) \<in> set (depsMap s) \<longrightarrow> (k, dep) \<in> set deps \<longrightarrow> distinct dep)"
  by (fastforce simp: sets_ok_def list_all_iff)

lemma sets_ok_subscribers:
  "sets_ok s \<Longrightarrow> subscribers s t k = Some dep \<Longrightarrow> distinct dep"
  unfolding sets_ok_iff subscribers_def
  by (cases "map_of (depsMap s) t") (auto dest!: map_of_SomeD)

lemma sets_ok_track: "sets_ok s \<Longrightarrow> sets_ok (track t k s)"
proof (cases "currentEffect s")
  case None
  then show "sets_ok s \<Longrightarrow> sets_ok (track t k s)" by (simp add: track_def)
next
  case (Some e)
  assume ok: "sets_ok s"
  define deps where "deps = (case map_of (depsMap s) t of None \<Rightarrow> [] | Some d \<Rightarrow> d)"
  define dep where "dep = (case map_of deps k of None \<Rightarrow> [] | Some d \<Rightarrow> d)"
  define dep' where "dep' = (if e \<in> set dep then dep else dep @ [e])"
  have tr: "depsMap (track t k s) = AList.update t (AList.update k dep' deps) (depsMap s)"
    using Some unfolding deps_def dep_def dep'_def by (simp add: track_def Let_def)
  have d1: "distinct d" if a: "(k', d) \<in> set deps" for k' d
  proof (cases "map_of (depsMap s) t")
    case None
    then show ?thesis using a by (simp add: deps_def)
  next
    case (Some x)
    then have "(t, deps) \<in> set (depsMap s)" by (simp add: deps_def map_of_SomeD)
    then show ?thesis using ok a unfolding sets_ok_iff by blast
  qed
  have "distinct dep"
  proof (cases "map_of deps k")
    case None
    then show ?thesis by (simp add: dep_def)
  next
    case (Some x)
    then have "(k, dep) \<in> set deps" by (simp add: dep_def map_of_SomeD)
    then show ?thesis using d1 by blast
  qed
  then have d2: "distinct dep'" by (simp add: dep'_def)
  show "sets_ok (track t k s)"
    unfolding sets_ok_iff tr
  proof (intro allI impI)
    fix t' deps' k' d
    assume a: "(t', deps') \<in> set (AList.update t (AList.update k dep' deps) (depsMap s))"
      and b: "(k', d) \<in> set deps'"
    from update_entry[OF a] show "distinct d"
    proof
      assume "(t', deps') = (t, AList.update k dep' deps)"
      then have "(k', d) \<in> set (AList.update k dep' deps)" using b by simp
      from update_entry[OF this] show ?thesis using d1 d2 by auto
    next
      assume "(t', deps') \<in> set (depsMap s)"
      then show ?thesis using ok b unfolding sets_ok_iff by blast
    qed
  qed
qed

lemma sets_ok_frame [simp]:
  "sets_ok (unwind s) = sets_ok s"
  "sets_ok (enter e s) = sets_ok s"
  "sets_ok (store s r k p) = sets_ok s"
  "sets_ok (s\<lparr>fresh := m\<rparr>) = sets_ok s"
  by (simp_all add: sets_ok_def)

lemma prop_get_sets_ok: "prop_get r k s = Some (v, s1, evs) \<Longrightarrow> sets_ok s \<Longrightarrow> sets_ok s1"
  by (auto simp: prop_get_def sets_ok_track split: option.splits property.splits)

lemma eval_sets_ok: "eval x s = Some (v, s1, evs) \<Longrightarrow> sets_ok s \<Longrightarrow> sets_ok s1"
  by (cases x) (auto dest: prop_get_sets_ok)

lemma run_sets_ok:
  "run n c s = Some (s', out, evs) \<Longrightarrow> sets_ok s \<Longrightarrow> sets_ok s'"
  by (induction rule: run_induct) (auto dest: prop_get_sets_ok eval_sets_ok)

lemma Invoke_calls:
  "run n (Invoke e args) s = Some (s', out, evs) \<Longrightarrow> calls evs = [(e, args)]"
  by (erule run_InvokeE) auto

lemma Invoke_runs_of:
  "run n (Invoke e args) s = Some (s', out, evs) \<Longrightarrow>
   runs_of x evs = (if e = x \<and> e \<notin> set (effectsStack s) then 1 else 0)"
  by (erule run_InvokeE) auto

text \<open>A pass calls the wrappers of its snapshot in order, up to the first that throws.\<close>

lemma ForEach_calls:
  "run n (ForEach es) s = Some (s', out, evs) \<Longrightarrow>
   \<exists>m \<le> length es. calls evs = map (\<lambda>e. (e, [])) (take m es)
     \<and> (out = Normal \<longrightarrow> m = length es) \<and> (out = Thrown \<longrightarrow> 0 < m)"
proof (induction es arbitrary: s evs)
  case Nil
  then show ?case by (auto dest: run_ForEach_NilE)
next
  case (Cons e es)
  from Cons.prems show ?case
  proof (cases rule: run_ForEach_ConsE)
    case thrown
    then have "calls evs = map (\<lambda>e. (e, [])) (take 1 (e # es))"
      using Invoke_calls by simp
    with thrown(2) show ?thesis by (intro exI[of _ 1]) simp
  next
    case (normal s1 ev1 ev2)
    from Cons.IH[OF normal(2)] obtain m where m: "m \<le> length es"
      "calls ev2 = map (\<lambda>e. (e, [])) (take m es)"
      "out = Normal \<longrightarrow> m = length es" "out = Thrown \<longrightarrow> 0 < m"
      by blast
    have "calls evs = map (\<lambda>e. (e, [])) (take (Suc m) (e # es))"
      using normal(3) Invoke_calls[OF normal(1)] m(2) by simp
    with m show ?thesis by (intro exI[of _ "Suc m"]) simp
  qed
qed

lemma ForEach_runs_of_absent:
  "run n (ForEach es) s = Some (s', out, evs) \<Longrightarrow> x \<notin> set es \<Longrightarrow> runs_of x evs = 0"
proof (induction es arbitrary: s evs)
  case Nil
  then show ?case by (auto dest: run_ForEach_NilE)
next
  case (Cons e es)
  from Cons.prems(1) show ?case
  proof (cases rule: run_ForEach_ConsE)
    case thrown
    then show ?thesis using Invoke_runs_of[OF thrown(1)] Cons.prems(2) by auto
  next
    case (normal s1 ev1 ev2)
    then show ?thesis
      using Invoke_runs_of[OF normal(1)] Cons.IH[OF normal(2)] Cons.prems(2) by auto
  qed
qed

lemma ForEach_runs_of:
  "run n (ForEach es) s = Some (s', out, evs) \<Longrightarrow> distinct es \<Longrightarrow>
   runs_of x evs \<le> 1 \<and>
   (out = Normal \<longrightarrow> x \<in> set es \<longrightarrow> x \<notin> set (effectsStack s) \<longrightarrow> runs_of x evs = 1)"
proof (induction es arbitrary: s evs)
  case Nil
  then show ?case by (auto dest: run_ForEach_NilE)
next
  case (Cons e es)
  from Cons.prems(1) show ?case
  proof (cases rule: run_ForEach_ConsE)
    case thrown
    then show ?thesis using Invoke_runs_of[OF thrown(1)] by simp
  next
    case (normal s1 ev1 ev2)
    have st: "effectsStack s1 = effectsStack s" using run_stack[OF normal(1)] .
    have d: "distinct es" "e \<notin> set es" using Cons.prems(2) by simp_all
    show ?thesis
    proof (cases "e = x")
      case True
      then have "runs_of x ev2 = 0" using ForEach_runs_of_absent[OF normal(2)] d(2) by simp
      then show ?thesis using Invoke_runs_of[OF normal(1)] normal(3) True by simp
    next
      case False
      then show ?thesis
        using Invoke_runs_of[OF normal(1)] normal(3) Cons.IH[OF normal(2) d(1)] st by simp
    qed
  qed
qed

text \<open>A pass in which no computation ran has changed nothing.\<close>

lemma ForEach_all_skipped:
  "run n (ForEach es) s = Some (s', out, evs) \<Longrightarrow> ran_deep evs = [] \<Longrightarrow> s' = s"
proof (induction es arbitrary: s evs)
  case Nil
  then show ?case by (auto dest: run_ForEach_NilE)
next
  case (Cons e es)
  from Cons.prems(1) show ?case
  proof (cases rule: run_ForEach_ConsE)
    case thrown
    from thrown(1) Cons.prems(2) show ?thesis by (cases rule: run_InvokeE) auto
  next
    case (normal s1 ev1 ev2)
    from normal(1) Cons.prems(2) normal(3) have "s1 = s" by (cases rule: run_InvokeE) auto
    moreover have "ran_deep ev2 = []" using Cons.prems(2) normal(3) by simp
    ultimately show ?thesis using Cons.IH[OF normal(2)] by simp
  qed
qed

lemma session_ConsE:
  assumes "session n (t # ts) s = Some (s', evs)"
  obtains s1 out ev1 ev2 where "run n (Exec t) s = Some (s1, out, ev1)"
    "session n ts s1 = Some (s', ev2)" "evs = ev1 @ ev2"
  using assms by (auto split: option.splits)

lemma session_stack:
  "session n ts s = Some (s', evs) \<Longrightarrow> effectsStack s' = effectsStack s"
proof (induction ts arbitrary: s evs)
  case Nil
  then show ?case by simp
next
  case (Cons t ts)
  from Cons.prems obtain s1 out ev1 ev2 where r: "run n (Exec t) s = Some (s1, out, ev1)"
    and q: "session n ts s1 = Some (s', ev2)"
    by (rule session_ConsE)
  from Cons.IH[OF q] run_stack[OF r] show ?case by simp
qed

lemma session_registered_mono:
  "session n ts s = Some (s', evs) \<Longrightarrow> registered s \<subseteq> registered s'"
proof (induction ts arbitrary: s evs)
  case Nil
  then show ?case by simp
next
  case (Cons t ts)
  from Cons.prems obtain s1 out ev1 ev2 where r: "run n (Exec t) s = Some (s1, out, ev1)"
    and q: "session n ts s1 = Some (s', ev2)"
    by (rule session_ConsE)
  from Cons.IH[OF q] run_registered_mono[OF r] show ?case by blast
qed

lemma session_sets_ok:
  "session n ts s = Some (s', evs) \<Longrightarrow> sets_ok s \<Longrightarrow> sets_ok s'"
proof (induction ts arbitrary: s evs)
  case Nil
  then show ?case by simp
next
  case (Cons t ts)
  from Cons.prems(1) obtain s1 out ev1 ev2 where r: "run n (Exec t) s = Some (s1, out, ev1)"
    and q: "session n ts s1 = Some (s', ev2)"
    by (rule session_ConsE)
  from Cons.IH[OF q run_sets_ok[OF r Cons.prems(2)]] show ?case .
qed

lemma session_origin:
  "session n ts s = Some (s', evs) \<Longrightarrow> ctx_ok s \<Longrightarrow> currentEffect s = None \<Longrightarrow>
   registered s' \<subseteq> registered s \<union> set (reads_by evs)"
proof (induction ts arbitrary: s evs)
  case Nil
  then show ?case by simp
next
  case (Cons t ts)
  from Cons.prems(1) obtain s1 out ev1 ev2 where
    r: "run n (Exec t) s = Some (s1, out, ev1)" and
    q: "session n ts s1 = Some (s', ev2)" and e: "evs = ev1 @ ev2"
    by (rule session_ConsE)
  have c: "ctx_ok s1" "currentEffect s1 = None"
    using run_ctx[OF r] run_current[OF r] Cons.prems by simp_all
  have a: "registered s1 \<subseteq> registered s \<union> set (reads_by ev1)"
    using run_registered_origin[OF r Cons.prems(2)] Cons.prems(3) by auto
  from Cons.IH[OF q c] a e show ?case by auto
qed

text \<open>The bound only cuts calls off: with a larger bound a call returns the same.\<close>

lemma run_fuel_mono:
  "run n c s = Some (s', out, evs) \<Longrightarrow> n \<le> m \<Longrightarrow> run m c s = Some (s', out, evs)"
proof (induction n c s arbitrary: m s' out evs rule: run.induct)
  case (1 n e args s)
  from "1.prems"(1) show ?case
  proof (cases rule: run_InvokeE)
    case skip
    then show ?thesis by (simp add: run.simps(1))
  next
    case (ran s1 sub)
    have "n - 1 \<le> m - 1" "m \<noteq> 0" using "1.prems"(2) ran(2) by auto
    with "1.IH"[OF ran(1,2,3)] ran show ?thesis by (simp add: run.simps(1))
  qed
next
  case (2 n f s)
  from "2.IH"[OF run_CreateE[OF "2.prems"(1)] "2.prems"(2)] show ?case
    by (simp add: run.simps(2))
next
  case (3 n target k s)
  from "3.prems"(1) show ?case
  proof (cases rule: run_TriggerE)
    case none
    then show ?thesis by (auto simp: run.simps(3) subscribers_def split: option.splits)
  next
    case (pass deps dep)
    from "3.IH"[OF pass(1,2,4) "3.prems"(2)] pass(1,2) show ?thesis
      by (simp add: run.simps(3))
  qed
next
  case (4 n s)
  then show ?case by (simp add: run.simps(4))
next
  case (5 n e es s)
  from "5.prems"(1) show ?case
  proof (cases rule: run_ForEach_ConsE)
    case thrown
    from "5.IH"(1)[OF thrown(1) "5.prems"(2)] thrown(2) show ?thesis
      by (simp add: run.simps(5))
  next
    case (normal s1 ev1 ev2)
    have a: "run m (Invoke e []) s = Some (s1, Normal, ev1)"
      using "5.IH"(1)[OF normal(1) "5.prems"(2)] .
    have b: "run m (ForEach es) s1 = Some (s', out, ev2)"
      using "5.IH"(2)[OF normal(1) refl refl refl normal(2) "5.prems"(2)] .
    show ?thesis using a b normal(3) by (simp add: run.simps(5))
  qed
next
  case (6 n r k v s)
  from "6.prems"(1) show ?case
  proof (cases rule: run_SetterE)
    case (changed ob old en cf)
    from "6.IH"[OF changed(1,2) refl changed(3,4) "6.prems"(2)] changed(1,2,3) show ?thesis
      by (simp add: run.simps(6))
  qed (simp_all add: run.simps(6))
next
  case (7 n r k s)
  then show ?case by (simp add: run.simps(7))
next
  case (8 n r k e s)
  from "8.prems"(1) show ?case
  proof (cases rule: run_StmtE)
    case (assign r' k' e' v s1 ev1 ev2)
    then have w: "run n (Setter r k v) s1 = Some (s', out, ev2)" and ev: "eval e s = Some (v, s1, ev1)"
      by simp_all
    from "8.IH"[OF ev refl refl w "8.prems"(2)] ev assign(4) show ?thesis
      by (simp add: run.simps(8))
  qed (auto simp: run.simps(8))
next
  case (9 n e s)
  then show ?case by (simp add: run.simps(9))
next
  case (10 n f s)
  from "10.prems"(1) have "run n (Create f) s = Some (s', out, evs)"
    by (simp add: run.simps(10))
  from "10.IH"[OF this "10.prems"(2)] show ?case by (simp add: run.simps(10))
next
  case (11 n s)
  then show ?case by (simp add: run.simps(11))
next
  case (12 n c cs s)
  from "12.prems"(1) show ?case
  proof (cases rule: run_Exec_ConsE)
    case thrown
    from "12.IH"(1)[OF thrown(1) "12.prems"(2)] thrown(2) show ?thesis
      by (simp add: run.simps(12))
  next
    case (normal s1 ev1 ev2)
    have a: "run m (Stmt c) s = Some (s1, Normal, ev1)"
      using "12.IH"(1)[OF normal(1) "12.prems"(2)] .
    have b: "run m (Exec cs) s1 = Some (s', out, ev2)"
      using "12.IH"(2)[OF normal(1) refl refl refl normal(2) "12.prems"(2)] .
    show ?thesis using a b normal(3) by (simp add: run.simps(12))
  qed
qed

section \<open>The claims\<close>

lemmas demo_defs = demo_def demo_heap_def init_def
lemmas eval_defs = lookup_obj_def prop_get_def track_def store_def enter_def unwind_def
  subscribers_def stored_def top_def effect_call_def createEffect_def trigger_def prop_set_def
  Let_def



text \<open>
  C2: a wrapper called while it is on the call stack returns at once, without calling its
  computation and without touching the state; and no run of an effect contains, at any
  depth, a further run of the same effect.
\<close>

theorem reentrancy_guard:
  "(e \<in> set (effectsStack s) \<longrightarrow> effect_call n e args s = Some (s, Normal, [Skipped e args]))
   \<and> (effect_call n e args s = Some (s', out, [Ran e args sub]) \<longrightarrow> e \<notin> set (ran_deep sub))"
proof (intro conjI impI)
  assume "e \<in> set (effectsStack s)"
  then show "effect_call n e args s = Some (s, Normal, [Skipped e args])"
    by (simp add: effect_call_def run.simps(1))
next
  assume "effect_call n e args s = Some (s', out, [Ran e args sub])"
  then have r: "run n (Invoke e args) s = Some (s', out, [Ran e args sub])"
    by (simp add: effect_call_def)
  then show "e \<notin> set (ran_deep sub)"
  proof (cases rule: run_InvokeE)
    case (ran s1 sub')
    from run_ran_not_active[OF ran(3)] ran(5) show ?thesis by auto
  qed simp
qed

lemma selfw_run:
  "effect_call 1 selfw [] demo =
     Some (demo\<lparr>depsMap := [(1, [(''p'', [selfw])])],
       heap := [[(''p'', Data (Num 0) True), (''q'', Data (Num 7) True)],
         [(''p'', Accessor (Num 3) False False), (''q'', Accessor (Num 7) False False)]]\<rparr>,
       Normal, [Ran selfw [] [Got 1 ''p'', Skipped selfw []]])"
  by (simp add: selfw_def demo_defs eval_defs run.simps)

theorem reentrancy_guard_witness:
  "effect_call 0 selfw [Num 1] (enter selfw demo) = Some (enter selfw demo, Normal, [Skipped selfw [Num 1]])
   \<and> selfw \<notin> set (ran_deep [Got 1 ''p'', Skipped selfw []])"
  using reentrancy_guard[of selfw "enter selfw demo" 0 "[Num 1]"]
    reentrancy_guard[of selfw demo 1 "[]" _ Normal "[Got 1 ''p'', Skipped selfw []]"] selfw_run
  by simp

text \<open>
  C3: when a wrapper has called its computation and the computation has returned or
  thrown, the wrapper returns or throws likewise, with the call stack as it was before
  the call and the current effect set to its top (none on the empty stack). For the call
  made by \<^verbatim>\<open>createEffect\<close> the outcome is that of \<^verbatim>\<open>createEffect\<close>.
\<close>

theorem cleanup_on_completion:
  assumes "e \<notin> set (effectsStack s)"
    and "run n (Exec (fn e)) (enter e s) = Some (s1, out, sub)"
  shows "effect_call (Suc n) e args s = Some (unwind s1, out, [Ran e args sub])
    \<and> effectsStack (unwind s1) = effectsStack s
    \<and> currentEffect (unwind s1) = top (effectsStack s)
    \<and> (e = Effect (fresh s0) f \<and> s = s0\<lparr>fresh := Suc (fresh s0)\<rparr> \<longrightarrow>
         createEffect (Suc n) f s0 = Some (unwind s1, out, [Ran e [] sub]))"
proof -
  have st: "effectsStack s1 = effectsStack s @ [e]"
    using run_stack[OF assms(2)] by simp
  have call: "run (Suc n) (Invoke e a) s = Some (unwind s1, out, [Ran e a sub])" for a
    using assms by (simp add: run.simps(1))
  have "effectsStack (unwind s1) = effectsStack s" using st by simp
  moreover have "currentEffect (unwind s1) = top (effectsStack s)"
    using st by (simp add: unwind_def top_def Let_def)
  ultimately show ?thesis
    using call by (auto simp: effect_call_def createEffect_def run.simps(2))
qed

theorem cleanup_on_completion_witness:
  "createEffect 1 [CRead 1 ''p'', CThrowIf (Lit (Bool True))] (enter selfw demo)
     = Some (enter selfw (demo\<lparr>depsMap :=
          [(1, [(''p'', [Effect 0 [CRead 1 ''p'', CThrowIf (Lit (Bool True))]])])], fresh := 1\<rparr>),
        Thrown, [Ran (Effect 0 [CRead 1 ''p'', CThrowIf (Lit (Bool True))]) [] [Got 1 ''p'']])"
proof -
  let ?f = "[CRead 1 ''p'', CThrowIf (Lit (Bool True))]"
  let ?before = "enter selfw demo"
  let ?called = "?before\<lparr>fresh := Suc (fresh ?before)\<rparr>"
  let ?body = "enter (Effect 0 ?f) (?called\<lparr>depsMap := [(1, [(''p'', [Effect 0 ?f])])]\<rparr>)"
  have a: "Effect 0 ?f \<notin> set (effectsStack ?called)"
    by (simp add: selfw_def demo_defs)
  have b: "run 0 (Exec (fn (Effect 0 ?f))) (enter (Effect 0 ?f) ?called) = Some (?body, Thrown, [Got 1 ''p''])"
    by (simp add: demo_defs eval_defs run.simps)
  have c: "unwind ?body = enter selfw (demo\<lparr>depsMap := [(1, [(''p'', [Effect 0 ?f])])], fresh := 1\<rparr>)"
    by (simp add: demo_defs eval_defs)
  note th = cleanup_on_completion[OF a b, of "[]" ?before ?f]
  have "createEffect 1 ?f ?before = Some (unwind ?body, Thrown, [Ran (Effect 0 ?f) [] [Got 1 ''p'']])"
    using th by (simp add: demo_defs enter_def top_def)
  then show ?thesis by (simp only: c)
qed

lemma subscribers_store [simp]: "subscribers (store s r k p) t k' = subscribers s t k'"
  by (simp add: subscribers_def)

lemma registered_iff:
  "(e, r, k) \<in> registered s \<longleftrightarrow> (\<exists>dep. subscribers s r k = Some dep \<and> e \<in> set dep)"
  by (simp add: registered_def)

lemma stored_SomeE:
  assumes "stored s r k = Some old"
  obtains ob en cf where "lookup_obj s r = Some ob" "map_of ob k = Some (Accessor old en cf)"
  using assms by (auto simp: stored_def split: option.splits property.splits)

text \<open>
  A changing assignment to a property runs the computation of a subscriber that is not
  on the call stack: at most once, and once when the pass is completed.
\<close>

lemma subscriber_rerun:
  assumes reg: "(e, r, k) \<in> registered s" and off: "e \<notin> set (effectsStack s)"
    and ok: "sets_ok s" and st: "stored s r k = Some old" and ne: "\<not> strict_eq v old"
    and w: "run n (Setter r k v) s = Some (s', out, evs)"
  shows "runs_of e evs \<le> 1 \<and> (out = Normal \<longrightarrow> runs_of e evs = 1)"
proof -
  from st obtain ob en cf where ob: "lookup_obj s r = Some ob"
    "map_of ob k = Some (Accessor old en cf)"
    by (rule stored_SomeE)
  from reg obtain dep where dep: "subscribers s r k = Some dep" "e \<in> set dep"
    by (auto simp: registered_iff)
  have dd: "distinct dep" using sets_ok_subscribers[OF ok dep(1)] .
  from w ob ne have "run n (Trigger r k) (store s r k (Accessor v en cf)) = Some (s', out, evs)"
    by (cases rule: run_SetterE) auto
  then have "run n (ForEach dep) (store s r k (Accessor v en cf)) = Some (s', out, evs)"
    using dep(1) by (cases rule: run_TriggerE) auto
  from ForEach_runs_of[OF this dd, of e] dep(2) off show ?thesis by simp
qed

text \<open>
  C1, as amended: when the computation of an effect has read a reactive property during
  a run, an assignment of a strictly different value made after that run has returned
  runs the computation again at most once, and exactly once when the notification is
  not ended by an effect that throws.
\<close>

theorem dependency_capture:
  assumes "effect_call n e args s0 = Some (s1, out0, [Ran e args sub])"
    and "(r, k) \<in> set (gets sub)"
    and "sets_ok s0"
    and "session m ts s1 = Some (s, evs0)"
    and "stored s r k = Some old" and "\<not> strict_eq v old"
    and "prop_set j r k v s = Some (s', out, evs)"
  shows "runs_of e evs \<le> 1 \<and> (out = Normal \<longrightarrow> runs_of e evs = 1)"
proof -
  have inv: "run n (Invoke e args) s0 = Some (s1, out0, [Ran e args sub])"
    using assms(1) by (simp add: effect_call_def)
  from inv obtain sb where off: "e \<notin> set (effectsStack s0)"
    and body: "run (n - 1) (Exec (fn e)) (enter e s0) = Some (sb, out0, sub)"
    and s1: "s1 = unwind sb"
    by (cases rule: run_InvokeE) auto
  have "(e, r, k) \<in> registered sb"
    using run_read_registers[OF body _ _ assms(2), of e] by simp
  then have "(e, r, k) \<in> registered s"
    using session_registered_mono[OF assms(4)] s1 by auto
  moreover have "e \<notin> set (effectsStack s)"
    using off session_stack[OF assms(4)] run_stack[OF inv] by simp
  moreover have "sets_ok s"
    using session_sets_ok[OF assms(4) run_sets_ok[OF inv assms(3)]] .
  ultimately show ?thesis
    using subscriber_rerun[OF _ _ _ assms(5,6)] assms(7) by (simp add: prop_set_def)
qed

lemma reader_run:
  "effect_call 1 reader [] demo = Some (one_sub, Normal, [Ran reader [] [Got 1 ''p'']])"
  by (simp add: reader_def one_sub_def demo_defs eval_defs run.simps)

lemma one_sub_write:
  "prop_set 1 1 ''p'' (Num 5) one_sub =
     Some (store one_sub 1 ''p'' (Accessor (Num 5) False False), Normal,
       [Ran reader [] [Got 1 ''p'']])"
  by (simp add: reader_def one_sub_def demo_defs eval_defs run.simps)

theorem dependency_capture_witness:
  "runs_of reader (events_of (prop_set 1 1 ''p'' (Num 5) one_sub)) = 1"
proof -
  have a: "(1, ''p'') \<in> set (gets [Got 1 ''p''])" by simp
  have b: "sets_ok demo" by (simp add: sets_ok_def demo_defs)
  have c: "session 0 [] one_sub = Some (one_sub, [])" by simp
  have d: "stored one_sub 1 ''p'' = Some (Num 0)"
    by (simp add: one_sub_def demo_defs stored_def lookup_obj_def)
  have e: "\<not> strict_eq (Num 5) (Num 0)" by simp
  from dependency_capture[OF reader_run a b c d e one_sub_write]
  show ?thesis unfolding one_sub_write events_of_def by simp
qed

lemma two_subs_created:
  "session 1 [[CCreate (fn thrower)], [CCreate (fn reader)]] demo =
     Some (two_subs, [Ran thrower [] [Got 1 ''p''], Ran reader [] [Got 1 ''p'']])"
  by (simp add: thrower_def reader_def two_subs_def demo_defs eval_defs run.simps)

lemma two_subs_write:
  "prop_set 1 1 ''p'' (Num 1) two_subs =
     Some (store two_subs 1 ''p'' (Accessor (Num 1) False False), Thrown,
       [Ran thrower [] [Got 1 ''p'']])"
  by (simp add: thrower_def reader_def two_subs_def demo_defs eval_defs run.simps)

lemma selfw_inner_write:
  "prop_set 0 1 ''p'' (Num 3) (track 1 ''p'' (enter selfw demo)) =
     Some (store (track 1 ''p'' (enter selfw demo)) 1 ''p'' (Accessor (Num 3) False False),
       Normal, [Skipped selfw []])"
  by (simp add: selfw_def demo_defs eval_defs run.simps)

text \<open>
  C1 as it is written fails. The reading effect read the property in its run, the
  later assignment of 1 for 0 ran the throwing effect, which was registered first and
  threw, and the reading effect was not run. And the assignment that an effect makes
  itself, after its read, finds the effect on the call stack and does not run it.
\<close>

theorem dependency_capture_counterexample:
  "session 1 [[CCreate (fn thrower)], [CCreate (fn reader)]] demo =
     Some (two_subs, [Ran thrower [] [Got 1 ''p''], Ran reader [] [Got 1 ''p'']])
   \<and> stored two_subs 1 ''p'' = Some (Num 0) \<and> \<not> strict_eq (Num 1) (Num 0)
   \<and> runs_of reader (events_of (prop_set 1 1 ''p'' (Num 1) two_subs)) = 0
   \<and> effect_call 1 selfw [] demo \<noteq> None
   \<and> stored (track 1 ''p'' (enter selfw demo)) 1 ''p'' = Some (Num 0)
   \<and> \<not> strict_eq (Num 3) (Num 0)
   \<and> runs_of selfw (events_of (prop_set 0 1 ''p'' (Num 3) (track 1 ''p'' (enter selfw demo)))) = 0"
proof -
  have a: "stored two_subs 1 ''p'' = Some (Num 0)"
    by (simp add: two_subs_def demo_defs stored_def lookup_obj_def)
  have b: "stored (track 1 ''p'' (enter selfw demo)) 1 ''p'' = Some (Num 0)"
    by (simp add: demo_defs stored_def lookup_obj_def)
  show ?thesis
    unfolding two_subs_created two_subs_write selfw_inner_write selfw_run a b events_of_def
    by (simp add: reader_def thrower_def selfw_def)
qed


lemma spawner_created:
  "createEffect 2 (fn spawner) demo =
     Some (spawned, Normal, [Ran spawner [] [Got 1 ''p'', Ran (Effect 1 [CRead 1 ''p'']) [] [Got 1 ''p'']]])"
  by (simp add: spawner_def spawned_def demo_defs eval_defs run.simps)





lemma reads_in_ran: "(e, t, k) \<in> set (reads_in ev) \<Longrightarrow> e \<in> set (ran_in ev)"
  by (induction ev) auto

lemma reads_by_ran: "(e, t, k) \<in> set (reads_by evs) \<Longrightarrow> e \<in> set (ran_deep evs)"
  by (auto simp: reads_by_def ran_deep_def dest: reads_in_ran)

text \<open>An assignment calls only wrappers registered for its property, without arguments.\<close>

lemma Setter_calls:
  assumes "run n (Setter r k v) s = Some (s', out, evs)" and "(e, args) \<in> set (calls evs)"
  shows "(e, r, k) \<in> registered s \<and> args = []"
  using assms(1)
proof (cases rule: run_SetterE)
  case (changed ob old en cf)
  from changed(4) show ?thesis
  proof (cases rule: run_TriggerE)
    case none
    then show ?thesis using assms(2) by simp
  next
    case (pass deps dep)
    from ForEach_calls[OF pass(4)] obtain m where
      "calls evs = map (\<lambda>e. (e, [])) (take m dep)" by blast
    with assms(2) have "e \<in> set (take m dep)" "args = []" by auto
    then have "e \<in> set dep" by (auto dest: in_set_takeD)
    with pass(3) \<open>args = []\<close> show ?thesis by (auto simp: registered_iff)
  qed
qed (use assms(2) in simp_all)

lemma registered_init [simp]: "registered (init h) = {}"
  by (simp add: registered_def subscribers_def init_def)

lemma init_ok [simp]: "ctx_ok (init h)" "currentEffect (init h) = None" "sets_ok (init h)"
  by (simp_all add: ctx_ok_def sets_ok_def init_def)

lemma track_idle: "currentEffect s = None \<Longrightarrow> track r k s = s"
  by (simp add: track_def)

lemma prop_get_idle:
  "currentEffect s = None \<Longrightarrow> prop_get r k s = Some (v, s1, evs) \<Longrightarrow> s1 = s"
  by (auto simp: prop_get_def track_idle split: option.splits property.splits)

text \<open>
  C5: a read while no effect is current leaves the state, hence the registry, as it is;
  and after any history from the start, every wrapper that an assignment to a property
  calls belongs to an effect whose computation has run and has read that property.
\<close>

theorem no_spurious_tracking:
  "(currentEffect s0 = None \<longrightarrow>
      track r k s0 = s0 \<and> (prop_get r k s0 = Some (x, s1, ev) \<longrightarrow> s1 = s0))
   \<and> (session n ts (init h) = Some (s, evs0) \<and> prop_set m r k v s = Some (s', out, evs) \<longrightarrow>
        (\<forall>(e, args) \<in> set (calls evs). e \<in> set (ran_deep evs0) \<and> (e, r, k) \<in> set (reads_by evs0)))"
proof (intro conjI impI)
  assume "currentEffect s0 = None"
  then show "track r k s0 = s0" by (rule track_idle)
next
  assume "currentEffect s0 = None" and "prop_get r k s0 = Some (x, s1, ev)"
  then show "s1 = s0" by (rule prop_get_idle)
next
  assume a: "session n ts (init h) = Some (s, evs0) \<and> prop_set m r k v s = Some (s', out, evs)"
  then have reg: "registered s \<subseteq> set (reads_by evs0)"
    using session_origin[of n ts "init h" s evs0] by simp
  from a have w: "run m (Setter r k v) s = Some (s', out, evs)" by (simp add: prop_set_def)
  show "\<forall>(e, args) \<in> set (calls evs). e \<in> set (ran_deep evs0) \<and> (e, r, k) \<in> set (reads_by evs0)"
  proof (clarify, intro conjI)
    fix e args
    assume "(e, args) \<in> set (calls evs)"
    then have "(e, r, k) \<in> registered s" using Setter_calls[OF w] by blast
    then show "(e, r, k) \<in> set (reads_by evs0)" using reg by blast
    then show "e \<in> set (ran_deep evs0)" by (rule reads_by_ran)
  qed
qed

lemma reader_created:
  "session 1 [[CRead 1 ''p''], [CCreate (fn reader_q)], [CRead 1 ''p'']] demo =
     Some (demo\<lparr>depsMap := [(1, [(''q'', [Effect 0 (fn reader_q)])])], fresh := 1\<rparr>,
       [Got 1 ''p'', Ran (Effect 0 (fn reader_q)) [] [Got 1 ''q''], Got 1 ''p''])"
  by (simp add: reader_q_def demo_defs eval_defs run.simps)

lemma reader_q_write:
  "prop_set 1 1 ''q'' (Num 1)
     (demo\<lparr>depsMap := [(1, [(''q'', [Effect 0 (fn reader_q)])])], fresh := 1\<rparr>) =
   Some (store (demo\<lparr>depsMap := [(1, [(''q'', [Effect 0 (fn reader_q)])])], fresh := 1\<rparr>)
           1 ''q'' (Accessor (Num 1) False False),
     Normal, [Ran (Effect 0 (fn reader_q)) [] [Got 1 ''q'']])"
  by (simp add: reader_q_def demo_defs eval_defs run.simps)

theorem no_spurious_tracking_witness:
  "track 1 ''p'' demo = demo
   \<and> prop_get 1 ''p'' demo = Some (Num 0, demo, [Got 1 ''p''])
   \<and> Effect 0 (fn reader_q) \<in> set (ran_deep
        [Got 1 ''p'', Ran (Effect 0 (fn reader_q)) [] [Got 1 ''q''], Got 1 ''p''])"
proof -
  have c: "currentEffect demo = None" by (simp add: demo_defs)
  have g: "prop_get 1 ''p'' demo = Some (Num 0, track 1 ''p'' demo, [Got 1 ''p''])"
    by (simp add: demo_defs prop_get_def lookup_obj_def)
  note th = no_spurious_tracking[where ?s0.0 = demo and r = 1 and k = "''p''"
      and x = "Num 0" and ?s1.0 = "track 1 ''p'' demo" and ev = "[Got 1 ''p'']"]
  from th c have t: "track 1 ''p'' demo = demo" by blast
  note th2 = no_spurious_tracking[where n = 1 and h = demo_heap and r = 1 and k = "''q''"
      and ts = "[[CRead 1 ''p''], [CCreate (fn reader_q)], [CRead 1 ''p'']]" and m = 1 and v = "Num 1"]
  from th2 reader_created reader_q_write
  have "\<forall>(e, args) \<in> set (calls [Ran (Effect 0 (fn reader_q)) [] [Got 1 ''q'']]).
      e \<in> set (ran_deep [Got 1 ''p'', Ran (Effect 0 (fn reader_q)) [] [Got 1 ''q''], Got 1 ''p''])"
    unfolding demo_def[symmetric] by blast
  then show ?thesis using t g by simp
qed

lemma run_fresh: "run n c s = Some (s', out, evs) \<Longrightarrow> fresh s \<le> fresh s'"
  by (induction rule: run_induct) (auto dest: prop_get_frame(4) eval_frame(4))

lemma fresh_ok_frame [simp]:
  "fresh_ok (store s r k p) = fresh_ok s"
  by (simp add: fresh_ok_def)

lemma fresh_ok_enter: "fresh_ok s \<Longrightarrow> ident e < fresh s \<Longrightarrow> fresh_ok (enter e s)"
  by (auto simp: fresh_ok_def)

lemma unwind_current: "currentEffect (unwind s) = Some e \<Longrightarrow> e \<in> set (effectsStack s)"
proof -
  assume "currentEffect (unwind s) = Some e"
  then have "butlast (effectsStack s) \<noteq> []" "e = last (butlast (effectsStack s))"
    by (auto simp: unwind_def Let_def split: if_splits)
  then have "e \<in> set (butlast (effectsStack s))" by simp
  then show ?thesis by (rule in_set_butlastD)
qed

lemma fresh_ok_unwind: "fresh_ok s \<Longrightarrow> fresh_ok (unwind s)"
  by (auto simp: fresh_ok_def dest: in_set_butlastD unwind_current)

lemma fresh_ok_next: "fresh_ok s \<Longrightarrow> fresh_ok (s\<lparr>fresh := Suc (fresh s)\<rparr>)"
  by (fastforce simp: fresh_ok_def)

lemma prop_get_fresh_ok: "prop_get r k s = Some (v, s1, evs) \<Longrightarrow> fresh_ok s \<Longrightarrow> fresh_ok s1"
  using prop_get_frame[of r k s v s1 evs] prop_get_registered[of r k s v s1 evs]
  by (auto simp: fresh_ok_def split: option.splits)

lemma eval_fresh_ok: "eval x s = Some (v, s1, evs) \<Longrightarrow> fresh_ok s \<Longrightarrow> fresh_ok s1"
  by (cases x) (auto dest: prop_get_fresh_ok)

lemma fresh_ok_mono: "fresh_ok s \<Longrightarrow> registered s' = registered s \<Longrightarrow>
  effectsStack s' = effectsStack s \<Longrightarrow> currentEffect s' = currentEffect s \<Longrightarrow>
  fresh s \<le> fresh s' \<Longrightarrow> fresh_ok s'"
  by (fastforce simp: fresh_ok_def)

text \<open>Whatever runs was created before it runs.\<close>

lemma run_known:
  "run n c s = Some (s', out, evs) \<Longrightarrow> fresh_ok s \<Longrightarrow> known c s \<Longrightarrow>
   fresh_ok s' \<and> (\<forall>e \<in> set (ran_deep evs). ident e < fresh s')"
proof (induction rule: run_induct)
  case (Ran n e args s s1 out sub)
  have "fresh_ok (enter e s)" using Ran.prems by (simp add: fresh_ok_enter)
  with Ran.IH have a: "fresh_ok s1" "\<forall>e \<in> set (ran_deep sub). ident e < fresh s1" by simp_all
  have "fresh s \<le> fresh s1" using run_fresh[OF Ran.hyps(2)] by simp
  with a Ran.prems show ?case by (auto simp: fresh_ok_unwind)
next
  case (Create n f s s' out evs)
  then show ?case by (simp add: fresh_ok_next)
next
  case (TriggerPass n t k s dep s' out evs)
  have "\<forall>e \<in> set dep. ident e < fresh s"
    using TriggerPass.prems(1) TriggerPass.hyps(1)
    by (fastforce simp: fresh_ok_def registered_def)
  with TriggerPass show ?case by simp
next
  case (ForEachCons n e es s s1 ev1 s' out ev2)
  have a: "fresh_ok s1" "\<forall>e \<in> set (ran_deep ev1). ident e < fresh s1"
    using ForEachCons.IH(1) ForEachCons.prems by simp_all
  have f1: "fresh s \<le> fresh s1" using run_fresh[OF ForEachCons.hyps(1)] .
  have f2: "fresh s1 \<le> fresh s'" using run_fresh[OF ForEachCons.hyps(2)] .
  have "known (ForEach es) s1" using ForEachCons.prems(2) f1 by auto
  with ForEachCons.IH(2) a(1) have b: "fresh_ok s'" "\<forall>e \<in> set (ran_deep ev2). ident e < fresh s'"
    by simp_all
  show ?case using a(2) b f2 by auto
next
  case (Write n r k x s v s1 ev1 s' out ev2)
  have "fresh_ok s1" using eval_fresh_ok[OF Write.hyps(1) Write.prems(1)] .
  with Write.IH show ?case using eval_events[OF Write.hyps(1)] by simp
next
  case (ExecCons n c cs s s1 ev1 s' out ev2)
  have a: "fresh_ok s1" "\<forall>e \<in> set (ran_deep ev1). ident e < fresh s1"
    using ExecCons.IH(1) ExecCons.prems by simp_all
  have f2: "fresh s1 \<le> fresh s'" using run_fresh[OF ExecCons.hyps(2)] .
  from ExecCons.IH(2) a(1) have b: "fresh_ok s'" "\<forall>e \<in> set (ran_deep ev2). ident e < fresh s'"
    by simp_all
  show ?case using a(2) b f2 by auto
next
  case (Read r k s v s' evs)
  then show ?case using prop_get_fresh_ok prop_get_events by simp
next
  case (ThrowIf x s v s' evs)
  then show ?case using eval_fresh_ok eval_events by simp
qed simp_all

lemma fresh_ok_init [simp]: "fresh_ok (init h)"
  by (auto simp: fresh_ok_def init_def registered_def subscribers_def)

lemma session_known:
  "session n ts s = Some (s', evs) \<Longrightarrow> fresh_ok s \<Longrightarrow>
   fresh_ok s' \<and> (\<forall>e \<in> set (ran_deep evs). ident e < fresh s')"
proof (induction ts arbitrary: s evs)
  case Nil
  then show ?case by simp
next
  case (Cons t ts)
  from Cons.prems(1) obtain s1 out ev1 ev2 where r: "run n (Exec t) s = Some (s1, out, ev1)"
    and q: "session n ts s1 = Some (s', ev2)" and e: "evs = ev1 @ ev2"
    by (rule session_ConsE)
  from run_known[OF r Cons.prems(2)] have a: "fresh_ok s1"
    "\<forall>e \<in> set (ran_deep ev1). ident e < fresh s1" by simp_all
  from Cons.IH[OF q a(1)] have b: "fresh_ok s'" "\<forall>e \<in> set (ran_deep ev2). ident e < fresh s'"
    by simp_all
  have "fresh s1 \<le> fresh s'" using q
  proof (induction ts arbitrary: s1 ev2)
    case Nil
    then show ?case by simp
  next
    case (Cons t ts)
    from Cons.prems obtain s2 out ev1 ev3 where r: "run n (Exec t) s1 = Some (s2, out, ev1)"
      and q: "session n ts s2 = Some (s', ev3)"
      by (rule session_ConsE)
    from run_fresh[OF r] Cons.IH[OF q] show ?case by simp
  qed
  with a(2) b e show ?case by auto
qed

lemma writes_append [simp]: "writes (xs @ ys) = writes xs @ writes ys"
  by (induction xs rule: writes.induct) auto

lemma writes_Cons: "set (writes [c]) \<union> set (writes cs) = set (writes (c # cs))"
  by (cases c) auto

lemma current_on_stack: "ctx_ok s \<Longrightarrow> currentEffect s = Some e \<Longrightarrow> e \<in> set (effectsStack s)"
  by (auto simp: ctx_ok_def split: if_splits)

lemma prop_get_others:
  assumes "prop_get r k s = Some (v, s1, evs)" and "ctx_ok s" and "x \<notin> set (effectsStack s)"
  shows "(x, t, k') \<in> registered s1 \<longleftrightarrow> (x, t, k') \<in> registered s"
  using prop_get_registered[OF assms(1)] current_on_stack[OF assms(2)] assms(3)
  by (auto split: option.splits)

lemma eval_others:
  assumes "eval y s = Some (v, s1, evs)" and "ctx_ok s" and "x \<notin> set (effectsStack s)"
  shows "(x, t, k') \<in> registered s1 \<longleftrightarrow> (x, t, k') \<in> registered s"
  using eval_registered[OF assms(1)] current_on_stack[OF assms(2)] assms(3)
  by (auto split: option.splits)

text \<open>
  An effect is not run, at any depth, by a call that avoids it, as long as no computation
  that runs assigns to a property for which the effect is registered; and its
  registrations stay as they are.
\<close>

lemma run_avoids:
  "run n c s = Some (s', out, evs) \<Longrightarrow> ctx_ok s \<Longrightarrow> x \<notin> set (effectsStack s) \<Longrightarrow>
   ident x < fresh s \<Longrightarrow> avoids x s c \<Longrightarrow>
   \<forall>f \<in> set (ran_deep evs). \<forall>(t, k) \<in> set (writes (fn f)). (x, t, k) \<notin> registered s \<Longrightarrow>
   x \<notin> set (ran_deep evs) \<and> (\<forall>t k. (x, t, k) \<in> registered s' \<longleftrightarrow> (x, t, k) \<in> registered s)"
proof (induction rule: run_induct)
  case (Ran n e args s s1 out sub)
  have ne: "e \<noteq> x" using Ran.prems(4) by simp
  have "avoids x (enter e s) (Exec (fn e))" using Ran.prems(5) by auto
  moreover have "\<forall>f \<in> set (ran_deep sub). \<forall>(t, k) \<in> set (writes (fn f)).
      (x, t, k) \<notin> registered (enter e s)"
    using Ran.prems(5) by auto
  ultimately have "x \<notin> set (ran_deep sub) \<and>
      (\<forall>t k. (x, t, k) \<in> registered s1 \<longleftrightarrow> (x, t, k) \<in> registered (enter e s))"
    using Ran.IH Ran.prems(2,3) ne by simp
  then show ?case using ne by simp
next
  case (Create n f s s' out evs)
  have "Effect (fresh s) f \<noteq> x" using Create.prems(3) by auto
  then show ?case using Create by simp
next
  case (TriggerPass n t k s dep s' out evs)
  have "x \<notin> set dep" using TriggerPass.prems(4) TriggerPass.hyps(1) by (auto simp: registered_def)
  then show ?case using TriggerPass by simp
next
  case (ForEachThrown n e es s s' evs)
  then show ?case by auto
next
  case (ForEachCons n e es s s1 ev1 s' out ev2)
  have ne: "e \<noteq> x" using ForEachCons.prems(4) by auto
  have h1: "\<forall>f \<in> set (ran_deep ev1). \<forall>(t, k) \<in> set (writes (fn f)). (x, t, k) \<notin> registered s"
    using ForEachCons.prems(5) by auto
  have a: "x \<notin> set (ran_deep ev1)"
    "\<forall>t k. (x, t, k) \<in> registered s1 \<longleftrightarrow> (x, t, k) \<in> registered s"
    using ForEachCons.IH(1)[OF ForEachCons.prems(1,2,3)] ne h1 by simp_all
  have c: "ctx_ok s1" "effectsStack s1 = effectsStack s" "fresh s \<le> fresh s1"
    using run_ctx[OF ForEachCons.hyps(1)] run_stack[OF ForEachCons.hyps(1)]
      run_fresh[OF ForEachCons.hyps(1)] ForEachCons.prems(1)
    by simp_all
  have h2: "\<forall>f \<in> set (ran_deep ev2). \<forall>(t, k) \<in> set (writes (fn f)). (x, t, k) \<notin> registered s1"
    using ForEachCons.prems(5) a(2) by auto
  have "avoids x s1 (ForEach es)" using ForEachCons.prems(4) by simp
  then have "x \<notin> set (ran_deep ev2) \<and>
      (\<forall>t k. (x, t, k) \<in> registered s' \<longleftrightarrow> (x, t, k) \<in> registered s1)"
    using ForEachCons.IH(2) c ForEachCons.prems(2,3) h2 by simp
  then show ?case using a by simp
next
  case (SetChanged n r k v s ob old en cf s' out evs)
  then show ?case by simp
next
  case (Read r k s v s' evs)
  then show ?case using prop_get_others prop_get_events by simp
next
  case (ThrowIf y s v s' evs)
  then show ?case using eval_others eval_events by simp
next
  case (Write n r k y s v s1 ev1 s' out ev2)
  have a: "\<forall>t k. (x, t, k) \<in> registered s1 \<longleftrightarrow> (x, t, k) \<in> registered s"
    using eval_others[OF Write.hyps(1) Write.prems(1,2)] by simp
  have c: "ctx_ok s1" "effectsStack s1 = effectsStack s" "fresh s1 = fresh s"
    using eval_ctx[OF Write.hyps(1)] eval_frame(1,4)[OF Write.hyps(1)] Write.prems(1)
    by simp_all
  have e1: "ran_deep ev1 = []" using eval_events[OF Write.hyps(1)] by simp
  have "avoids x s1 (Setter r k v)" using Write.prems(4) a by simp
  moreover have "\<forall>f \<in> set (ran_deep ev2). \<forall>(t, k) \<in> set (writes (fn f)).
      (x, t, k) \<notin> registered s1"
    using Write.prems(5) a e1 by auto
  ultimately have "x \<notin> set (ran_deep ev2) \<and>
      (\<forall>t k. (x, t, k) \<in> registered s' \<longleftrightarrow> (x, t, k) \<in> registered s1)"
    using Write.IH c Write.prems(2,3) by simp
  then show ?case using a e1 by simp
next
  case (CreateStmt n f s s' out evs)
  then show ?case by simp
next
  case (ExecThrown n c cs s s' evs)
  have "avoids x s (Stmt c)" using ExecThrown.prems(4) writes_Cons[of c cs] by auto
  then show ?case using ExecThrown by simp
next
  case (ExecCons n c cs s s1 ev1 s' out ev2)
  have av: "avoids x s (Stmt c)" using ExecCons.prems(4) writes_Cons[of c cs] by auto
  have h1: "\<forall>f \<in> set (ran_deep ev1). \<forall>(t, k) \<in> set (writes (fn f)). (x, t, k) \<notin> registered s"
    using ExecCons.prems(5) by auto
  have a: "x \<notin> set (ran_deep ev1)"
    "\<forall>t k. (x, t, k) \<in> registered s1 \<longleftrightarrow> (x, t, k) \<in> registered s"
    using ExecCons.IH(1)[OF ExecCons.prems(1,2,3) av h1] by simp_all
  have c: "ctx_ok s1" "effectsStack s1 = effectsStack s" "fresh s \<le> fresh s1"
    using run_ctx[OF ExecCons.hyps(1)] run_stack[OF ExecCons.hyps(1)]
      run_fresh[OF ExecCons.hyps(1)] ExecCons.prems(1)
    by simp_all
  have "avoids x s1 (Exec cs)" using ExecCons.prems(4) writes_Cons[of c cs] a(2) by auto
  moreover have "\<forall>f \<in> set (ran_deep ev2). \<forall>(t, k) \<in> set (writes (fn f)).
      (x, t, k) \<notin> registered s1"
    using ExecCons.prems(5) a(2) by auto
  ultimately have "x \<notin> set (ran_deep ev2) \<and>
      (\<forall>t k. (x, t, k) \<in> registered s' \<longleftrightarrow> (x, t, k) \<in> registered s1)"
    using ExecCons.IH(2) c ExecCons.prems(2,3) by simp
  then show ?case using a by simp
qed simp_all


lemma session_ctx: "session n ts s = Some (s', evs) \<Longrightarrow> ctx_ok s \<Longrightarrow> ctx_ok s'"
proof (induction ts arbitrary: s evs)
  case Nil
  then show ?case by simp
next
  case (Cons t ts)
  from Cons.prems(1) obtain s1 out ev1 ev2 where r: "run n (Exec t) s = Some (s1, out, ev1)"
    and q: "session n ts s1 = Some (s', ev2)"
    by (rule session_ConsE)
  from Cons.IH[OF q run_ctx[OF r Cons.prems(2)]] show ?case .
qed

lemma runs_of_calls: "e \<notin> fst ` set (calls evs) \<Longrightarrow> runs_of e evs = 0"
  by (induction evs rule: calls.induct) auto

text \<open>
  C8, as amended: after any history from the start, an assignment to a property does not
  call the wrapper of an effect whose computation has never read that property; and
  the effect, when it was created in the history, is not run at any depth of what the
  assignment sets off, unless a computation that runs there has an assignment to a
  property that the effect has read.
\<close>

theorem key_isolation:
  assumes "session n ts (init h) = Some (s, evs0)"
    and "(e, r, q) \<notin> set (reads_by evs0)"
    and "prop_set m r q v s = Some (s', out, evs)"
  shows "e \<notin> fst ` set (calls evs) \<and> runs_of e evs = 0
    \<and> (e \<in> set (ran_deep evs0)
        \<and> (\<forall>f \<in> set (ran_deep evs). \<forall>(t, k) \<in> set (writes (fn f)).
              (e, t, k) \<notin> set (reads_by evs0))
        \<longrightarrow> e \<notin> set (ran_deep evs))"
proof -
  have reg: "registered s \<subseteq> set (reads_by evs0)"
    using session_origin[OF assms(1)] by simp
  have w: "run m (Setter r q v) s = Some (s', out, evs)"
    using assms(3) by (simp add: prop_set_def)
  have a: "e \<notin> fst ` set (calls evs)"
  proof
    assume "e \<in> fst ` set (calls evs)"
    then obtain args where "(e, args) \<in> set (calls evs)" by auto
    then have "(e, r, q) \<in> registered s" using Setter_calls[OF w] by blast
    then show False using reg assms(2) by blast
  qed
  have deep: "e \<notin> set (ran_deep evs)"
    if ran: "e \<in> set (ran_deep evs0)"
      and quiet: "\<forall>f \<in> set (ran_deep evs). \<forall>(t, k) \<in> set (writes (fn f)).
        (e, t, k) \<notin> set (reads_by evs0)"
  proof -
    have c: "ctx_ok s" using session_ctx[OF assms(1)] by simp
    have st: "e \<notin> set (effectsStack s)"
      using session_stack[OF assms(1)] by (simp add: init_def)
    have id: "ident e < fresh s" using session_known[OF assms(1)] ran by simp
    have av: "avoids e s (Setter r q v)" using reg assms(2) by auto
    have "\<forall>f \<in> set (ran_deep evs). \<forall>(t, k) \<in> set (writes (fn f)). (e, t, k) \<notin> registered s"
      using quiet reg by fastforce
    from run_avoids[OF w c st id av this] show ?thesis by simp
  qed
  from a runs_of_calls[OF a] deep show ?thesis by blast
qed

lemma both_keys_created:
  "session 1 [[CCreate (fn reader)], [CCreate (fn reader_q)]] (init demo_heap) =
     Some (both_keys, [Ran (Effect 0 (fn reader)) [] [Got 1 ''p''],
       Ran (Effect 1 (fn reader_q)) [] [Got 1 ''q'']])"
  by (simp add: reader_def reader_q_def both_keys_def demo_defs eval_defs run.simps)

lemma both_keys_write:
  "prop_set 1 1 ''q'' (Num 1) both_keys =
     Some (store both_keys 1 ''q'' (Accessor (Num 1) False False), Normal,
       [Ran (Effect 1 (fn reader_q)) [] [Got 1 ''q'']])"
  by (simp add: reader_def reader_q_def both_keys_def demo_defs eval_defs run.simps)

theorem key_isolation_witness:
  "Effect 0 (fn reader) \<notin> fst ` set (calls (events_of (prop_set 1 1 ''q'' (Num 1) both_keys)))
   \<and> runs_of (Effect 0 (fn reader)) (events_of (prop_set 1 1 ''q'' (Num 1) both_keys)) = 0
   \<and> Effect 0 (fn reader) \<notin> set (ran_deep (events_of (prop_set 1 1 ''q'' (Num 1) both_keys)))
   \<and> calls (events_of (prop_set 1 1 ''q'' (Num 1) both_keys)) = [(Effect 1 (fn reader_q), [])]"
proof -
  have a: "(Effect 0 (fn reader), 1, ''q'') \<notin> set (reads_by [Ran (Effect 0 (fn reader)) [] [Got 1 ''p''],
       Ran (Effect 1 (fn reader_q)) [] [Got 1 ''q'']])"
    by (simp add: reader_def reader_q_def)
  from key_isolation[OF both_keys_created a both_keys_write]
  show ?thesis unfolding both_keys_write events_of_def
    by (simp add: reader_def reader_q_def)
qed

lemma relayed_created:
  "session 2 [[CCreate (fn reader)], [CCreate (fn relay)]] (init demo_heap) =
     Some (relayed, [Ran (Effect 0 (fn reader)) [] [Got 1 ''p''],
       Ran relay [] [Got 1 ''q'', Ran (Effect 0 (fn reader)) [] [Got 1 ''p'']]])"
  by (simp add: reader_def relay_def relayed_def demo_defs eval_defs run.simps)

lemma relayed_write:
  "prop_set 2 1 ''q'' (Num 9) relayed =
     Some (relayed\<lparr>heap := [[(''p'', Data (Num 0) True), (''q'', Data (Num 7) True)],
       [(''p'', Accessor (Num 9) False False), (''q'', Accessor (Num 9) False False)]]\<rparr>,
       Normal, [Ran relay [] [Got 1 ''q'', Ran (Effect 0 (fn reader)) [] [Got 1 ''p'']]])"
  by (simp add: reader_def relay_def relayed_def demo_defs eval_defs run.simps)

text \<open>
  C8 as it is written fails: the first effect has read the one property only, the second
  copies the other property into it, and the assignment of 9 to the other property runs
  the second effect, whose assignment runs the first.
\<close>

theorem key_isolation_counterexample:
  "session 2 [[CCreate (fn reader)], [CCreate (fn relay)]] (init demo_heap) =
     Some (relayed, [Ran (Effect 0 (fn reader)) [] [Got 1 ''p''],
       Ran relay [] [Got 1 ''q'', Ran (Effect 0 (fn reader)) [] [Got 1 ''p'']]])
   \<and> (Effect 0 (fn reader), 1, ''q'') \<notin> set (reads_by [Ran (Effect 0 (fn reader)) [] [Got 1 ''p''],
       Ran relay [] [Got 1 ''q'', Ran (Effect 0 (fn reader)) [] [Got 1 ''p'']]])
   \<and> Effect 0 (fn reader) \<in> set (ran_deep (events_of (prop_set 2 1 ''q'' (Num 9) relayed)))"
  unfolding relayed_created relayed_write events_of_def
  by (simp add: reader_def relay_def)

lemma gets_deep_simps [simp]:
  "gets_deep [] = []"
  "gets_deep (xs @ ys) = gets_deep xs @ gets_deep ys"
  "gets_deep (Ran e args sub # evs) = gets_deep sub @ gets_deep evs"
  "gets_deep (Skipped e args # evs) = gets_deep evs"
  "gets_deep (Got r k # evs) = (r, k) # gets_deep evs"
  by (simp_all add: gets_deep_def)

lemma subscribers_frame [simp]:
  "subscribers (unwind s) t k = subscribers s t k"
  "subscribers (enter e s) t k = subscribers s t k"
  "subscribers (s\<lparr>fresh := m\<rparr>) t k = subscribers s t k"
  by (simp_all add: subscribers_def)

lemma prop_get_subscribers:
  "prop_get r k' s = Some (v, s1, evs) \<Longrightarrow> (t, k) \<notin> set (gets_deep evs) \<Longrightarrow>
   subscribers s1 t k = subscribers s t k"
  by (auto simp: prop_get_def subscribers_track split: option.splits property.splits)

lemma eval_subscribers:
  "eval x s = Some (v, s1, evs) \<Longrightarrow> (t, k) \<notin> set (gets_deep evs) \<Longrightarrow>
   subscribers s1 t k = subscribers s t k"
  by (cases x) (auto dest: prop_get_subscribers)

text \<open>The subscriber set of a property that is not read stays as it is.\<close>

lemma run_subscribers_frame:
  "run n c s = Some (s', out, evs) \<Longrightarrow> (t, k) \<notin> set (gets_deep evs) \<Longrightarrow>
   subscribers s' t k = subscribers s t k"
proof (induction rule: run_induct)
  case (Read r k' s v s' evs)
  then show ?case by (rule prop_get_subscribers)
next
  case (ThrowIf x s v s' evs)
  then show ?case by (rule eval_subscribers)
next
  case (Write n r k' x s v s1 ev1 s' out ev2)
  then show ?case using eval_subscribers[OF Write.hyps(1)] by simp
qed simp_all

lemma stored_store:
  "r < length (heap s) \<Longrightarrow>
   stored (store s r k (Accessor v en cf)) r' k' =
     (if r' = r \<and> k' = k then Some v else stored s r' k')"
  by (auto simp: stored_def store_def lookup_obj_def update_conv' nth_list_update)

lemma stored_store_other:
  "(r, k') \<noteq> (t, k) \<Longrightarrow> stored (store s r k' p) t k = stored s t k"
  by (cases "r < length (heap s)")
    (auto simp: stored_def store_def lookup_obj_def update_conv' nth_list_update)

lemma stored_frame [simp]:
  "stored (unwind s) t k = stored s t k"
  "stored (enter e s) t k = stored s t k"
  "stored (s\<lparr>fresh := m\<rparr>) t k = stored s t k"
  by (simp_all add: stored_def lookup_obj_def)

lemma stored_heap: "heap s1 = heap s \<Longrightarrow> stored s1 t k = stored s t k"
  by (simp add: stored_def lookup_obj_def)

text \<open>
  The stored value of a property stays as it is when neither the call nor a computation
  that runs has an assignment to it.
\<close>

lemma run_stored_frame:
  "run n c s = Some (s', out, evs) \<Longrightarrow> spares t k c \<Longrightarrow>
   \<forall>f \<in> set (ran_deep evs). (t, k) \<notin> set (writes (fn f)) \<Longrightarrow>
   stored s' t k = stored s t k"
proof (induction rule: run_induct)
  case (Read r k' s v s' evs)
  then show ?case using prop_get_frame(3) stored_heap by blast
next
  case (ThrowIf x s v s' evs)
  then show ?case using eval_frame(3) stored_heap by blast
next
  case (Write n r k' x s v s1 ev1 s' out ev2)
  have "stored s1 t k = stored s t k" using eval_frame(3)[OF Write.hyps(1)] by (rule stored_heap)
  moreover have "ran_deep ev1 = []" using eval_events[OF Write.hyps(1)] by simp
  ultimately show ?case using Write by auto
next
  case (ExecThrown n c cs s s' evs)
  have "(t, k) \<notin> set (writes [c])"
    using ExecThrown.prems(1) writes_Cons[of c cs] by auto
  then show ?case using ExecThrown by auto
next
  case (ExecCons n c cs s s1 ev1 s' out ev2)
  have "(t, k) \<notin> set (writes [c])" "(t, k) \<notin> set (writes cs)"
    using ExecCons.prems(1) writes_Cons[of c cs] by auto
  then show ?case using ExecCons by auto
qed (simp_all add: stored_store_other)

text \<open>
  C9, as amended: an assignment to a reactive property calls only wrappers registered
  for that property. The stored value of any other property is as before unless a
  computation that runs in what the assignment sets off has an assignment to it, and
  the subscriber set of any other property is as before unless such a computation reads
  it. The assigned property holds the new value unless a computation that runs assigns
  to it again.
\<close>

theorem assignment_frame:
  assumes "stored s r p = Some old" and "prop_set n r p v s = Some (s', out, evs)"
    and "(r', q) \<noteq> (r, p)"
  shows "(\<forall>(e, args) \<in> set (calls evs). (e, r, p) \<in> registered s)
    \<and> ((\<forall>f \<in> set (ran_deep evs). (r', q) \<notin> set (writes (fn f))) \<longrightarrow>
         stored s' r' q = stored s r' q)
    \<and> ((r', q) \<notin> set (gets_deep evs) \<longrightarrow> subscribers s' r' q = subscribers s r' q)
    \<and> ((\<forall>f \<in> set (ran_deep evs). (r, p) \<notin> set (writes (fn f))) \<longrightarrow>
         stored s' r p = Some (if strict_eq v old then old else v))"
proof -
  have w: "run n (Setter r p v) s = Some (s', out, evs)"
    using assms(2) by (simp add: prop_set_def)
  have called: "\<forall>(e, args) \<in> set (calls evs). (e, r, p) \<in> registered s"
    using Setter_calls[OF w] by blast
  have val: "stored s' r' q = stored s r' q"
    if "\<forall>f \<in> set (ran_deep evs). (r', q) \<notin> set (writes (fn f))"
    using run_stored_frame[OF w _ that] assms(3) by auto
  have subs: "subscribers s' r' q = subscribers s r' q" if "(r', q) \<notin> set (gets_deep evs)"
    using run_subscribers_frame[OF w that] .
  have own: "stored s' r p = Some (if strict_eq v old then old else v)"
    if quiet: "\<forall>f \<in> set (ran_deep evs). (r, p) \<notin> set (writes (fn f))"
  proof -
    from assms(1) obtain ob en cf where ob: "lookup_obj s r = Some ob"
      "map_of ob p = Some (Accessor old en cf)"
      by (rule stored_SomeE)
    then have len: "r < length (heap s)" by (simp add: lookup_obj_def split: if_splits)
    from w show ?thesis
    proof (cases rule: run_SetterE)
      case (same ob' old' en' cf')
      then show ?thesis using ob assms(1) by simp
    next
      case (changed ob' old' en' cf')
      from run_stored_frame[OF changed(4) _ quiet]
      have "stored s' r p = stored (store s r p (Accessor v en' cf')) r p" by simp
      then show ?thesis using changed(1,2,3) ob len by (simp add: stored_store)
    qed (use ob in simp_all)
  qed
  from called val subs own show ?thesis by blast
qed

lemma one_sub_stored: "stored one_sub 1 ''p'' = Some (Num 0)"
  by (simp add: one_sub_def demo_defs stored_def lookup_obj_def)

theorem assignment_frame_witness:
  "(reader, 1, ''p'') \<in> registered one_sub
   \<and> ran_deep (events_of (prop_set 1 1 ''p'' (Num 5) one_sub)) = [reader]
   \<and> stored (store one_sub 1 ''p'' (Accessor (Num 5) False False)) 1 ''q'' = stored one_sub 1 ''q''
   \<and> subscribers (store one_sub 1 ''p'' (Accessor (Num 5) False False)) 1 ''q''
       = subscribers one_sub 1 ''q''
   \<and> stored (store one_sub 1 ''p'' (Accessor (Num 5) False False)) 1 ''p'' = Some (Num 5)"
proof -
  have ne: "(1, ''q'') \<noteq> (1 :: nat, ''p'')" by simp
  have a: "\<forall>f \<in> set (ran_deep [Ran reader [] [Got 1 ''p'']]). (1, ''q'') \<notin> set (writes (fn f))"
    by (simp add: reader_def)
  have b: "(1, ''q'') \<notin> set (gets_deep [Ran reader [] [Got 1 ''p'']])"
    by simp
  have c: "\<forall>f \<in> set (ran_deep [Ran reader [] [Got 1 ''p'']]). (1, ''p'') \<notin> set (writes (fn f))"
    by (simp add: reader_def)
  from assignment_frame[OF one_sub_stored one_sub_write ne] a b c
  show ?thesis unfolding one_sub_write events_of_def by simp
qed

lemma copier_created:
  "createEffect 1 (fn copier) demo = Some (copied, Normal, [Ran copier [] [Got 1 ''p'']])"
  by (simp add: copier_def copied_def demo_defs eval_defs run.simps)

lemma copied_write:
  "prop_set 1 1 ''p'' (Num 5) copied =
     Some (copied\<lparr>heap := [[(''p'', Data (Num 0) True), (''q'', Data (Num 7) True)],
       [(''p'', Accessor (Num 5) False False), (''q'', Accessor (Num 5) False False)]]\<rparr>,
       Normal, [Ran copier [] [Got 1 ''p'']])"
  by (simp add: copier_def copied_def demo_defs eval_defs run.simps)

text \<open>
  C9 as it is written fails: the copying effect has read the one property, and the
  assignment of 5 to that property runs it, which changes the stored value of the other
  property from 0 to 5.
\<close>

theorem assignment_frame_counterexample:
  "createEffect 1 (fn copier) demo = Some (copied, Normal, [Ran copier [] [Got 1 ''p'']])
   \<and> stored copied 1 ''q'' = Some (Num 0)
   \<and> stored (fst (the (prop_set 1 1 ''p'' (Num 5) copied))) 1 ''q'' = Some (Num 5)"
proof -
  have "stored copied 1 ''q'' = Some (Num 0)"
    by (simp add: copied_def demo_defs stored_def lookup_obj_def)
  then show ?thesis
    unfolding copied_write copier_created
    by (simp add: copied_def demo_defs stored_def lookup_obj_def)
qed

lemma update_fresh: "k \<notin> fst ` set al \<Longrightarrow> AList.update k v al = al @ [(k, v)]"
  by (induction al) auto

lemma shape_update_same:
  "map_of ob k = Some p0 \<Longrightarrow> kind_of p = kind_of p0 \<Longrightarrow> shape (AList.update k p ob) = shape ob"
  by (induction ob) (auto simp: shape_def)

lemma shape_update_fresh:
  "map_of ob k = None \<Longrightarrow> shape (AList.update k p ob) = shape ob @ [(k, kind_of p)]"
  by (simp add: update_fresh map_of_eq_None_iff shape_def)

lemma grown_refl [simp]: "grown s s"
proof -
  have "shape ob = shape ob @ map (\<lambda>k. (k, KData True)) []" for ob by simp
  then show ?thesis unfolding grown_def by blast
qed

lemma grown_heap: "heap s' = heap s \<Longrightarrow> grown s s'"
  using grown_refl[of s] by (simp add: grown_def)

lemma grown_trans: "grown s s1 \<Longrightarrow> grown s1 s2 \<Longrightarrow> grown s s2"
  unfolding grown_def
proof (intro conjI allI impI)
  assume a: "length (heap s) \<le> length (heap s1) \<and>
      (\<forall>i<length (heap s). \<exists>ks. shape (heap s1 ! i) = shape (heap s ! i) @ map (\<lambda>k. (k, KData True)) ks)"
    and b: "length (heap s1) \<le> length (heap s2) \<and>
      (\<forall>i<length (heap s1). \<exists>ks. shape (heap s2 ! i) = shape (heap s1 ! i) @ map (\<lambda>k. (k, KData True)) ks)"
  show "length (heap s) \<le> length (heap s2)" using a b by simp
  fix i
  assume i: "i < length (heap s)"
  then obtain ks where ks: "shape (heap s1 ! i) = shape (heap s ! i) @ map (\<lambda>k. (k, KData True)) ks"
    using a by blast
  from i a have "i < length (heap s1)" by simp
  then obtain ks' where "shape (heap s2 ! i) = shape (heap s1 ! i) @ map (\<lambda>k. (k, KData True)) ks'"
    using b by blast
  with ks have "shape (heap s2 ! i) = shape (heap s ! i) @ map (\<lambda>k. (k, KData True)) (ks @ ks')"
    by simp
  then show "\<exists>ks. shape (heap s2 ! i) = shape (heap s ! i) @ map (\<lambda>k. (k, KData True)) ks"
    by blast
qed

lemma grown_store_same:
  assumes "lookup_obj s r = Some ob" and "map_of ob k = Some p0" and "kind_of p = kind_of p0"
  shows "grown s (store s r k p)"
proof -
  have r: "r < length (heap s)" "heap s ! r = ob"
    using assms(1) by (auto simp: lookup_obj_def split: if_splits)
  have "shape (heap (store s r k p) ! i) = shape (heap s ! i) @ map (\<lambda>k. (k, KData True)) []"
    if "i < length (heap s)" for i
    using that r assms(2,3) by (cases "i = r") (simp_all add: store_def shape_update_same)
  then show ?thesis unfolding grown_def by (auto simp: store_def)
qed

lemma grown_store_fresh:
  assumes "lookup_obj s r = Some ob" and "map_of ob k = None"
  shows "grown s (store s r k (Data v True))"
proof -
  have r: "r < length (heap s)" "heap s ! r = ob"
    using assms(1) by (auto simp: lookup_obj_def split: if_splits)
  have "\<exists>ks. shape (heap (store s r k (Data v True)) ! i) =
      shape (heap s ! i) @ map (\<lambda>k. (k, KData True)) ks"
    if "i < length (heap s)" for i
  proof (cases "i = r")
    case True
    then have "shape (heap (store s r k (Data v True)) ! i) =
        shape (heap s ! i) @ map (\<lambda>k. (k, KData True)) [k]"
      using r assms(2) by (simp add: store_def shape_update_fresh)
    then show ?thesis by blast
  next
    case False
    then have "shape (heap (store s r k (Data v True)) ! i) =
        shape (heap s ! i) @ map (\<lambda>k. (k, KData True)) []"
      by (simp add: store_def)
    then show ?thesis by blast
  qed
  then show ?thesis unfolding grown_def by (auto simp: store_def)
qed

lemma run_heap_length: "run n c s = Some (s', out, evs) \<Longrightarrow> length (heap s') = length (heap s)"
  by (induction rule: run_induct)
    (auto simp: store_def dest: prop_get_frame(3) eval_frame(3))

lemma run_grown: "run n c s = Some (s', out, evs) \<Longrightarrow> grown s s'"
proof (induction rule: run_induct)
  case (Ran n e args s s1 out sub)
  have "grown s (enter e s)" "grown s1 (unwind s1)" by (simp_all add: grown_heap)
  with Ran.IH show ?case by (blast intro: grown_trans)
next
  case (Create n f s s' out evs)
  have "grown s (s\<lparr>fresh := Suc (fresh s)\<rparr>)" by (simp add: grown_heap)
  with Create.IH show ?case by (blast intro: grown_trans)
next
  case (ForEachCons n e es s s1 ev1 s' out ev2)
  then show ?case by (blast intro: grown_trans)
next
  case (SetNew r k v s ob)
  then show ?case by (simp add: grown_store_fresh)
next
  case (SetData r k v s ob old en)
  then show ?case by (simp add: grown_store_same)
next
  case (SetChanged n r k v s ob old en cf s' out evs)
  have "grown s (store s r k (Accessor v en cf))"
    using SetChanged.hyps(1,2) by (simp add: grown_store_same)
  with SetChanged.IH show ?case by (blast intro: grown_trans)
next
  case (Read r k s v s' evs)
  then show ?case using prop_get_frame(3) grown_heap by blast
next
  case (ThrowIf x s v s' evs)
  then show ?case using eval_frame(3) grown_heap by blast
next
  case (Write n r k x s v s1 ev1 s' out ev2)
  have "grown s s1" using eval_frame(3)[OF Write.hyps(1)] by (rule grown_heap)
  with Write.IH show ?case by (blast intro: grown_trans)
next
  case (ExecCons n c cs s s1 ev1 s' out ev2)
  then show ?case by (blast intro: grown_trans)
qed simp_all

lemma foldl_update_fresh:
  "distinct ks \<Longrightarrow> set ks \<inter> fst ` set acc = {} \<Longrightarrow>
   foldl (\<lambda>a k. AList.update k (g k) a) acc ks = acc @ map (\<lambda>k. (k, g k)) ks"
proof (induction ks arbitrary: acc)
  case Nil
  then show ?case by simp
next
  case (Cons k ks)
  have "AList.update k (g k) acc = acc @ [(k, g k)]"
    using Cons.prems(2) by (intro update_fresh) auto
  moreover have "set ks \<inter> fst ` set (acc @ [(k, g k)]) = {}"
    using Cons.prems by auto
  ultimately show ?case using Cons.IH[of "acc @ [(k, g k)]"] Cons.prems(1) by simp
qed

lemma define_all_ConsE:
  assumes "define_all r r' (k # ks) s = Some s'"
  obtains v s1 evs where "prop_get r k s = Some (v, s1, evs)"
    "define_all r r' ks (s1\<lparr>heap := (heap s1)[r' := defineProperty (heap s1 ! r') k
       \<lparr>cell = v, enumerable_attr = None, configurable_attr = None\<rparr>]\<rparr>) = Some s'"
  using assms by (auto split: option.splits)

lemma define_all_length:
  "define_all r r' ks s = Some s' \<Longrightarrow> length (heap s') = length (heap s)"
proof (induction ks arbitrary: s)
  case Nil
  then show ?case by simp
next
  case (Cons k ks)
  from Cons.prems obtain v s1 evs where g: "prop_get r k s = Some (v, s1, evs)"
    and d: "define_all r r' ks (s1\<lparr>heap := (heap s1)[r' := defineProperty (heap s1 ! r') k
               \<lparr>cell = v, enumerable_attr = None, configurable_attr = None\<rparr>]\<rparr>) = Some s'"
    by (rule define_all_ConsE)
  from Cons.IH[OF d] prop_get_frame(3)[OF g] show ?case by simp
qed

lemma define_all_other:
  "define_all r r' ks s = Some s' \<Longrightarrow> i \<noteq> r' \<Longrightarrow> heap s' ! i = heap s ! i"
proof (induction ks arbitrary: s)
  case Nil
  then show ?case by simp
next
  case (Cons k ks)
  from Cons.prems(1) obtain v s1 evs where g: "prop_get r k s = Some (v, s1, evs)"
    and d: "define_all r r' ks (s1\<lparr>heap := (heap s1)[r' := defineProperty (heap s1 ! r') k
               \<lparr>cell = v, enumerable_attr = None, configurable_attr = None\<rparr>]\<rparr>) = Some s'"
    by (rule define_all_ConsE)
  from Cons.IH[OF d Cons.prems(2)] prop_get_frame(3)[OF g] Cons.prems(2) show ?case by simp
qed

text \<open>Every property that the loop defines is an accessor pair with both attributes false.\<close>

lemma define_all_accessors:
  "define_all r r' ks s = Some s' \<Longrightarrow> r' < length (heap s) \<Longrightarrow>
   \<forall>(k, p) \<in> set (heap s ! r'). \<exists>v. p = Accessor v False False \<Longrightarrow>
   \<forall>(k, p) \<in> set (heap s' ! r'). \<exists>v. p = Accessor v False False"
proof (induction ks arbitrary: s)
  case Nil
  then show ?case by simp
next
  case (Cons k ks)
  from Cons.prems(1) obtain v s1 evs where g: "prop_get r k s = Some (v, s1, evs)"
    and d: "define_all r r' ks (s1\<lparr>heap := (heap s1)[r' := defineProperty (heap s1 ! r') k
               \<lparr>cell = v, enumerable_attr = None, configurable_attr = None\<rparr>]\<rparr>) = Some s'"
    by (rule define_all_ConsE)
  have h: "heap s1 = heap s" using prop_get_frame(3)[OF g] .
  show ?case
  proof (rule Cons.IH[OF d])
    show "r' < length (heap (s1\<lparr>heap := (heap s1)[r' := defineProperty (heap s1 ! r') k
               \<lparr>cell = v, enumerable_attr = None, configurable_attr = None\<rparr>]\<rparr>))"
      using Cons.prems(2) h by simp
    show "\<forall>(k, p) \<in> set (heap (s1\<lparr>heap := (heap s1)[r' := defineProperty (heap s1 ! r') k
               \<lparr>cell = v, enumerable_attr = None, configurable_attr = None\<rparr>]\<rparr>) ! r').
        \<exists>v. p = Accessor v False False"
      using Cons.prems(2,3) h
      by (auto simp: defineProperty_def dest!: update_entry)
  qed
qed

lemma define_all_distinct:
  "define_all r r' ks s = Some s' \<Longrightarrow> r' < length (heap s) \<Longrightarrow>
   distinct (map fst (heap s ! r')) \<Longrightarrow> distinct (map fst (heap s' ! r'))"
proof (induction ks arbitrary: s)
  case Nil
  then show ?case by simp
next
  case (Cons k ks)
  from Cons.prems(1) obtain v s1 evs where g: "prop_get r k s = Some (v, s1, evs)"
    and d: "define_all r r' ks (s1\<lparr>heap := (heap s1)[r' := defineProperty (heap s1 ! r') k
               \<lparr>cell = v, enumerable_attr = None, configurable_attr = None\<rparr>]\<rparr>) = Some s'"
    by (rule define_all_ConsE)
  have h: "heap s1 = heap s" using prop_get_frame(3)[OF g] .
  show ?case
  proof (rule Cons.IH[OF d])
    show "r' < length (heap (s1\<lparr>heap := (heap s1)[r' := defineProperty (heap s1 ! r') k
               \<lparr>cell = v, enumerable_attr = None, configurable_attr = None\<rparr>]\<rparr>))"
      using Cons.prems(2) h by simp
    show "distinct (map fst (heap (s1\<lparr>heap := (heap s1)[r' := defineProperty (heap s1 ! r') k
               \<lparr>cell = v, enumerable_attr = None, configurable_attr = None\<rparr>]\<rparr>) ! r'))"
      using Cons.prems(2,3) h by (simp add: defineProperty_def distinct_update)
  qed
qed

lemma reactiveE:
  assumes "reactive r s = Some (r', s')"
  obtains ob where "lookup_obj s r = Some ob" "r' = length (heap s)"
    "define_all r r' (object_keys ob) (s\<lparr>heap := heap s @ [[]]\<rparr>) = Some s'"
  using assms by (auto simp: reactive_def Let_def split: option.splits)

lemma reactive_length:
  assumes "reactive r s = Some (r', s')"
  shows "r' = length (heap s)" and "length (heap s') = Suc (length (heap s))"
proof -
  from assms obtain ob where r': "r' = length (heap s)"
    and d: "define_all r r' (object_keys ob) (s\<lparr>heap := heap s @ [[]]\<rparr>) = Some s'"
    by (rule reactiveE)
  show "r' = length (heap s)" by (rule r')
  show "length (heap s') = Suc (length (heap s))" using define_all_length[OF d] by simp
qed

lemma reactive_other:
  assumes "reactive r s = Some (r', s')" and "i < length (heap s)"
  shows "heap s' ! i = heap s ! i"
proof -
  from assms(1) obtain ob where r': "r' = length (heap s)"
    and d: "define_all r r' (object_keys ob) (s\<lparr>heap := heap s @ [[]]\<rparr>) = Some s'"
    by (rule reactiveE)
  have "i \<noteq> r'" using assms(2) r' by simp
  from define_all_other[OF d this] assms(2) show ?thesis by (simp add: nth_append)
qed

lemma reactive_grown: "reactive r s = Some (r', s') \<Longrightarrow> grown s s'"
proof -
  assume a: "reactive r s = Some (r', s')"
  have "shape (heap s' ! i) = shape (heap s ! i) @ map (\<lambda>k. (k, KData True)) []"
    if "i < length (heap s)" for i
    using reactive_other[OF a that] by simp
  then show ?thesis unfolding grown_def using reactive_length(2)[OF a] by (simp; blast)
qed

lemma later_grown: "later s s' \<Longrightarrow> grown s s'"
  by (induction rule: later.induct) (auto intro: grown_trans run_grown reactive_grown)

text \<open>No call gives an object the same key twice.\<close>

lemma store_distinct:
  "distinct (map fst (heap s ! i)) \<Longrightarrow> distinct (map fst (heap (store s r k p) ! i))"
proof (cases "r < length (heap s)")
  case True
  assume "distinct (map fst (heap s ! i))"
  then show ?thesis using True by (cases "i = r") (simp_all add: store_def distinct_update)
next
  case False
  assume "distinct (map fst (heap s ! i))"
  then show ?thesis using False by (simp add: store_def list_update_beyond)
qed

lemma run_distinct:
  "run n c s = Some (s', out, evs) \<Longrightarrow> distinct (map fst (heap s ! i)) \<Longrightarrow>
   distinct (map fst (heap s' ! i))"
proof (induction rule: run_induct)
  case (Read r k s v s' evs)
  then show ?case using prop_get_frame(3) by simp
next
  case (ThrowIf x s v s' evs)
  then show ?case using eval_frame(3) by simp
next
  case (Write n r k x s v s1 ev1 s' out ev2)
  then show ?case using eval_frame(3) by simp
qed (simp_all add: store_distinct)

lemma later_distinct:
  "later s s' \<Longrightarrow> i < length (heap s) \<Longrightarrow> distinct (map fst (heap s ! i)) \<Longrightarrow>
   distinct (map fst (heap s' ! i))"
proof (induction rule: later.induct)
  case (later_now s)
  then show ?case by simp
next
  case (later_run s s1 n c s2 out evs)
  then show ?case using run_distinct by blast
next
  case (later_reactive s s1 r r' s2)
  have "i < length (heap s1)"
    using later_grown[OF later_reactive.hyps(1)] later_reactive.prems(1) by (simp add: grown_def)
  from reactive_other[OF later_reactive.hyps(2) this] later_reactive.IH later_reactive.prems
  show ?case by simp
qed


lemma enumerable_shape:
  "map fst (filter (\<lambda>(k, p). enumerable p) ob) =
   map fst (filter (\<lambda>(k, c). kind_enumerable c) (shape ob))"
proof (induction ob)
  case Nil
  then show ?case by (simp add: shape_def)
next
  case (Cons a ob)
  obtain k p where a: "a = (k, p)" by (cases a)
  show ?case using Cons a by (cases p) (simp_all add: shape_def)
qed


lemma filter_added_enumerable:
  "map fst (filter (\<lambda>(k, c). kind_enumerable c) (map (\<lambda>k. (k, KData True)) ks)) = ks"
  by (induction ks) simp_all






text \<open>The order of \<^verbatim>\<open>Object.keys\<close> loses no key and repeats none.\<close>

lemma set_key_order [simp]: "set (key_order ks) = set ks"
  by (auto simp: key_order_def)

lemma distinct_key_order: "distinct ks \<Longrightarrow> distinct (key_order ks)"
  by (auto simp: key_order_def)

lemma key_order_Nil [simp]: "key_order [] = []"
  by (simp add: key_order_def)

lemma distinct_object_keys: "distinct (map fst ob) \<Longrightarrow> distinct (object_keys ob)"
  unfolding object_keys_def by (intro distinct_key_order distinct_map_filter)

lemma object_keys_own: "set (object_keys ob) \<subseteq> fst ` set ob"
  by (auto simp: object_keys_def)

lemma object_keys_accessors:
  "\<forall>(k, p) \<in> set ob. \<exists>v. p = Accessor v False False \<Longrightarrow> object_keys ob = []"
proof -
  assume "\<forall>(k, p) \<in> set ob. \<exists>v. p = Accessor v False False"
  then have "filter (\<lambda>(k, p). enumerable p) ob = []"
    by (induction ob) auto
  then show ?thesis by (simp add: object_keys_def)
qed

lemma shape_accessors:
  "\<forall>(k, p) \<in> set ob. \<exists>v. p = Accessor v False False \<Longrightarrow>
   filter (\<lambda>(k, c). kind_enumerable c) (shape ob) = []"
  by (induction ob) (auto simp: shape_def)

lemma enumerable_grown:
  assumes "shape ob' = shape ob @ map (\<lambda>k. (k, KData True)) ks"
    and "filter (\<lambda>(k, c). kind_enumerable c) (shape ob) = []"
  shows "map fst (filter (\<lambda>(k, p). enumerable p) ob') = ks"
  by (simp only: enumerable_shape assms filter_append map_append filter_added_enumerable
      list.map append_Nil)

text \<open>The object that \<^verbatim>\<open>reactive\<close> builds.\<close>

lemma intercepted_wrap: "intercepted (wrap ob) = object_keys ob"
  by (simp add: intercepted_def wrap_def filter_map comp_def)


lemma prop_get_own:
  assumes "lookup_obj s r = Some ob" and "k \<in> fst ` set ob"
  shows "\<exists>s1 evs. prop_get r k s = Some (get_value ob k, s1, evs)"
proof -
  from assms(2) obtain p where "map_of ob k = Some p"
    by (metis domIff dom_map_of_conv_image_fst not_Some_eq)
  then show ?thesis using assms(1)
    by (cases p) (simp_all add: prop_get_def get_value_def)
qed

lemma define_all_own:
  assumes "r \<noteq> r'"
  shows "r' < length (heap s) \<Longrightarrow> lookup_obj s r = Some ob \<Longrightarrow> set ks \<subseteq> fst ` set ob \<Longrightarrow>
    \<exists>s'. define_all r r' ks s = Some s'
      \<and> heap s' = (heap s)[r' :=
          foldl (\<lambda>a k. AList.update k (Accessor (get_value ob k) False False) a) (heap s ! r') ks]
      \<and> effectsStack s' = effectsStack s \<and> currentEffect s' = currentEffect s
      \<and> fresh s' = fresh s"
proof (induction ks arbitrary: s)
  case Nil
  then show ?case by simp
next
  case (Cons k ks)
  let ?p = "Accessor (get_value ob k) False False"
  from Cons.prems(2,3) obtain s1 evs where g: "prop_get r k s = Some (get_value ob k, s1, evs)"
    using prop_get_own[of s r ob k] by auto
  note f = prop_get_frame[OF g]
  let ?s2 = "s1\<lparr>heap := (heap s1)[r' := AList.update k ?p (heap s1 ! r')]\<rparr>"
  have l2: "lookup_obj ?s2 r = Some ob"
    using Cons.prems(2) assms f(3) by (auto simp: lookup_obj_def split: if_splits)
  have len: "r' < length (heap ?s2)" using Cons.prems(1) f(3) by simp
  have sub: "set ks \<subseteq> fst ` set ob" using Cons.prems(3) by simp
  from Cons.IH[OF len l2 sub] obtain s' where s': "define_all r r' ks ?s2 = Some s'"
    "heap s' = (heap ?s2)[r' :=
        foldl (\<lambda>a k. AList.update k (Accessor (get_value ob k) False False) a) (heap ?s2 ! r') ks]"
    "effectsStack s' = effectsStack ?s2" "currentEffect s' = currentEffect ?s2"
    "fresh s' = fresh ?s2"
    by blast
  have "define_all r r' (k # ks) s = Some s'"
    using g s'(1) by (simp add: defineProperty_def)
  moreover have "heap s' = (heap s)[r' :=
      foldl (\<lambda>a k. AList.update k (Accessor (get_value ob k) False False) a) (heap s ! r') (k # ks)]"
    using s'(2) f(3) Cons.prems(1) by simp
  ultimately show ?case using s'(3-5) f by simp
qed

lemma reactive_result:
  assumes "lookup_obj s r = Some ob" and "distinct (map fst ob)"
  shows "\<exists>s'. reactive r s = Some (length (heap s), s') \<and> heap s' = heap s @ [wrap ob]
    \<and> effectsStack s' = effectsStack s \<and> currentEffect s' = currentEffect s
    \<and> fresh s' = fresh s"
proof -
  let ?a = "s\<lparr>heap := heap s @ [[]]\<rparr>"
  have r: "r < length (heap s)" using assms(1) by (simp add: lookup_obj_def split: if_splits)
  have l: "lookup_obj ?a r = Some ob"
    using assms(1) r by (simp add: lookup_obj_def nth_append)
  have "r \<noteq> length (heap s)" "length (heap s) < length (heap ?a)" using r by simp_all
  from define_all_own[OF this l object_keys_own]
  obtain s' where s': "define_all r (length (heap s)) (object_keys ob) ?a = Some s'"
    "heap s' = (heap ?a)[length (heap s) :=
        foldl (\<lambda>a k. AList.update k (Accessor (get_value ob k) False False) a)
          (heap ?a ! length (heap s)) (object_keys ob)]"
    "effectsStack s' = effectsStack ?a" "currentEffect s' = currentEffect ?a"
    "fresh s' = fresh ?a"
    by blast
  have "foldl (\<lambda>a k. AList.update k (Accessor (get_value ob k) False False) a) []
      (object_keys ob) = wrap ob"
    using foldl_update_fresh[OF distinct_object_keys[OF assms(2)], where acc = "[]"
        and g = "\<lambda>k. Accessor (get_value ob k) False False"]
    by (simp add: wrap_def)
  then have "heap s' = heap s @ [wrap ob]" using s'(2) by simp
  moreover have "reactive r s = Some (length (heap s), s')"
    using assms(1) s'(1) by (simp add: reactive_def Let_def)
  ultimately show ?thesis using s'(3-5) by simp
qed




lemma source_reactive: "reactive 0 (init source_heap) = Some (1, demo)"
  by (simp add: reactive_def source_heap_def demo_defs lookup_obj_def object_keys_def
      key_order_def is_index_def prop_get_def defineProperty_def Let_def)

lemma extended_write: "prop_set 0 1 ''z'' (Num 1) demo = Some (extended, Normal, [])"
  by (simp add: extended_def demo_defs eval_defs run.simps)

lemma extended_later: "later demo extended"
  using later_run[OF later_now extended_write[unfolded prop_set_def]] .

lemma extended_reactive:
  "reactive 1 extended =
     Some (2, extended\<lparr>heap := heap extended @ [[(''z'', Accessor (Num 1) False False)]]\<rparr>)"
  by (simp add: reactive_def extended_def demo_defs lookup_obj_def object_keys_def
      key_order_def is_index_def prop_get_def defineProperty_def Let_def)

text \<open>
  C10: every property of the object that \<^verbatim>\<open>reactive\<close> returns is an accessor pair that is
  neither enumerable nor configurable, so \<^verbatim>\<open>Object.keys\<close> of it is empty, and \<^verbatim>\<open>reactive\<close>
  applied to it at once returns a new object with no property at all. In every later
  state the object has these accessor pairs, of the same attributes, followed by the
  enumerable data properties that assignments have added to it since; \<^verbatim>\<open>Object.keys\<close> of
  it is then these added keys, and \<^verbatim>\<open>reactive\<close> applied to it returns a new object on which
  exactly the added keys are intercepted.
\<close>

theorem accessors_not_enumerable:
  assumes "reactive r s = Some (r', s')"
  shows "(\<forall>(k, p) \<in> set (heap s' ! r'). \<exists>v. p = Accessor v False False)
    \<and> object_keys (heap s' ! r') = []
    \<and> reactive r' s' = Some (Suc r', s'\<lparr>heap := heap s' @ [[]]\<rparr>)
    \<and> intercepted ((heap s' @ [[]]) ! Suc r') = []
    \<and> (\<forall>s2. later s' s2 \<longrightarrow>
         (\<exists>ks. shape (heap s2 ! r') = shape (heap s' ! r') @ map (\<lambda>k. (k, KData True)) ks
            \<and> object_keys (heap s2 ! r') = key_order ks
            \<and> (\<exists>s3. reactive r' s2 = Some (length (heap s2), s3)
                 \<and> heap s3 = heap s2 @ [wrap (heap s2 ! r')]
                 \<and> intercepted (wrap (heap s2 ! r')) = key_order ks)))"
proof -
  from assms obtain ob where ob: "lookup_obj s r = Some ob" and r': "r' = length (heap s)"
    and d: "define_all r r' (object_keys ob) (s\<lparr>heap := heap s @ [[]]\<rparr>) = Some s'"
    by (rule reactiveE)
  have len: "length (heap s') = Suc r'" using define_all_length[OF d] r' by simp
  have acc: "\<forall>(k, p) \<in> set (heap s' ! r'). \<exists>v. p = Accessor v False False"
    using define_all_accessors[OF d] r' by simp
  then have keys: "object_keys (heap s' ! r') = []" by (rule object_keys_accessors)
  have dist: "distinct (map fst (heap s' ! r'))"
    using define_all_distinct[OF d] r' by simp
  have again: "reactive r' s' = Some (Suc r', s'\<lparr>heap := heap s' @ [[]]\<rparr>)"
    using len keys by (simp add: reactive_def lookup_obj_def Let_def)
  have none: "intercepted ((heap s' @ [[]]) ! Suc r') = []"
    using len by (simp add: intercepted_def nth_append)
  have hidden: "filter (\<lambda>(k, c). kind_enumerable c) (shape (heap s' ! r')) = []"
    using acc by (rule shape_accessors)
  have "\<exists>ks. shape (heap s2 ! r') = shape (heap s' ! r') @ map (\<lambda>k. (k, KData True)) ks
      \<and> object_keys (heap s2 ! r') = key_order ks
      \<and> (\<exists>s3. reactive r' s2 = Some (length (heap s2), s3)
           \<and> heap s3 = heap s2 @ [wrap (heap s2 ! r')]
           \<and> intercepted (wrap (heap s2 ! r')) = key_order ks)"
    if l: "later s' s2" for s2
  proof -
    have g: "grown s' s2" using l by (rule later_grown)
    then have len2: "r' < length (heap s2)" using len by (simp add: grown_def)
    from g len obtain ks
      where ks: "shape (heap s2 ! r') = shape (heap s' ! r') @ map (\<lambda>k. (k, KData True)) ks"
      unfolding grown_def by fastforce
    have k2: "object_keys (heap s2 ! r') = key_order ks"
      unfolding object_keys_def enumerable_grown[OF ks hidden] ..
    have "distinct (map fst (heap s2 ! r'))"
      using later_distinct[OF l _ dist] len by simp
    moreover have "lookup_obj s2 r' = Some (heap s2 ! r')"
      using len2 by (simp add: lookup_obj_def)
    ultimately obtain s3 where "reactive r' s2 = Some (length (heap s2), s3)"
      "heap s3 = heap s2 @ [wrap (heap s2 ! r')]"
      using reactive_result by blast
    then show ?thesis using ks k2 by (auto simp: intercepted_wrap)
  qed
  then show ?thesis using acc keys again none by blast
qed

theorem accessors_not_enumerable_witness:
  "object_keys (heap demo ! 1) = []
   \<and> reactive 1 demo = Some (2, demo\<lparr>heap := heap demo @ [[]]\<rparr>)
   \<and> intercepted ((heap demo @ [[]]) ! 2) = []
   \<and> (\<exists>ks. shape (heap extended ! 1) = shape (heap demo ! 1) @ map (\<lambda>k. (k, KData True)) ks
        \<and> object_keys (heap extended ! 1) = key_order ks
        \<and> (\<exists>s3. reactive 1 extended = Some (2, s3)
             \<and> heap s3 = heap extended @ [wrap (heap extended ! 1)]
             \<and> intercepted (wrap (heap extended ! 1)) = key_order ks))"
proof -
  note t = accessors_not_enumerable[OF source_reactive]
  note now = t[THEN conjunct2, THEN conjunct1]
    t[THEN conjunct2, THEN conjunct2, THEN conjunct1]
    t[THEN conjunct2, THEN conjunct2, THEN conjunct2, THEN conjunct1]
  note after = t[THEN conjunct2, THEN conjunct2, THEN conjunct2, THEN conjunct2,
      THEN spec, THEN mp, OF extended_later]
  have "length (heap extended) = 2" by (simp add: extended_def)
  with now after show ?thesis by (simp add: numeral_2_eq_2)
qed

text \<open>
  C10 as it is written fails once a property was added: after \<^verbatim>\<open>r.z = 1\<close> on the reactive
  object \<open>r\<close>, \<^verbatim>\<open>Object.keys(r)\<close> is \<open>z\<close>, and \<^verbatim>\<open>reactive(r)\<close> returns an object on which \<open>z\<close>
  is intercepted.
\<close>

theorem accessors_not_enumerable_counterexample:
  "reactive 0 (init source_heap) = Some (1, demo)
   \<and> prop_set 0 1 ''z'' (Num 1) demo = Some (extended, Normal, [])
   \<and> object_keys (heap extended ! 1) = [''z'']
   \<and> reactive 1 extended =
       Some (2, extended\<lparr>heap := heap extended @ [[(''z'', Accessor (Num 1) False False)]]\<rparr>)
   \<and> intercepted [(''z'', Accessor (Num 1) False False)] = [''z'']"
  unfolding source_reactive extended_write extended_reactive
  by (simp add: extended_def object_keys_def key_order_def is_index_def intercepted_def)




end
